theory Spec2Isabelle
  imports Main "HOL-Library.Signed_Division"
begin


section \<open>Data model of game.cpp\<close>

text \<open>
  A cell is the \<^verbatim>\<open>pair<int,int>\<close> of the source, \<open>(x, y)\<close>. The grid is the
  \<^verbatim>\<open>array<array<char, MAP_W>, MAP_H>\<close>: a list of \<open>MAP_H\<close> rows of \<open>MAP_W\<close> characters,
  read as \<^verbatim>\<open>map[y][x]\<close>. The \<^verbatim>\<open>int\<close>s of the source are modelled as unbounded
  integers: every quantity of the game (coordinates below 20, hit points, a score that
  grows by 10 for each of at most 8 enemies) stays far from the 32-bit range; only the
  turn counter could reach it, after more than two thousand million moves.
\<close>

type_synonym cell = "int \<times> int"
type_synonym Grid = "char list list"

definition MAP_W :: int where "MAP_W = 20"
definition MAP_H :: int where "MAP_H = 10"

record Rect =
  rect_x :: int
  rect_y :: int
  rect_w :: int
  rect_h :: int

definition centerX :: "Rect \<Rightarrow> int" where
  "centerX r = rect_x r + rect_w r sdiv 2"

definition centerY :: "Rect \<Rightarrow> int" where
  "centerY r = rect_y r + rect_h r sdiv 2"

definition intersects :: "Rect \<Rightarrow> Rect \<Rightarrow> bool" where
  "intersects a r =
     (\<not> (rect_x a + rect_w a \<le> rect_x r \<or> rect_x r + rect_w r \<le> rect_x a \<or>
         rect_y a + rect_h a \<le> rect_y r \<or> rect_y r + rect_h r \<le> rect_y a))"

record Enemy =
  enemy_x :: int
  enemy_y :: int
  hp :: int
  alive :: bool

record Item =
  item_x :: int
  item_y :: int

datatype Difficulty = EASY | NORMAL | HARD

record DiffConfig =
  enemyMin :: int
  enemyMax :: int
  enemyHpMin :: int
  enemyHpMax :: int
  enemyAtkMin :: int
  enemyAtkMax :: int
  potionMin :: int
  potionMax :: int

text \<open>The table \<^verbatim>\<open>diffConfigs\<close>, with the three rows that \<^verbatim>\<open>main\<close> stores in it.\<close>

fun diffConfigs :: "Difficulty \<Rightarrow> DiffConfig" where
  "diffConfigs EASY =
     \<lparr>enemyMin = 2, enemyMax = 4, enemyHpMin = 3, enemyHpMax = 5,
      enemyAtkMin = 1, enemyAtkMax = 2, potionMin = 5, potionMax = 7\<rparr>"
| "diffConfigs NORMAL =
     \<lparr>enemyMin = 3, enemyMax = 6, enemyHpMin = 4, enemyHpMax = 8,
      enemyAtkMin = 2, enemyAtkMax = 3, potionMin = 3, potionMax = 5\<rparr>"
| "diffConfigs HARD =
     \<lparr>enemyMin = 5, enemyMax = 8, enemyHpMin = 6, enemyHpMax = 12,
      enemyAtkMin = 3, enemyAtkMax = 5, potionMin = 1, potionMax = 3\<rparr>"

subsection \<open>The random number generator\<close>

text \<open>
  The global \<^verbatim>\<open>mt19937\<close> is an explicit state: the stream of raw numbers it has still
  to produce. \<^verbatim>\<open>rnd(a,b)\<close> consumes one of them and maps it into \<open>a..b\<close>; every
  value of the range is the image of some raw number, so each run of the program is the
  run of the model on some stream. (The distribution of the draws is not part of the
  model. The source only calls \<^verbatim>\<open>rnd\<close> with \<open>a \<le> b\<close>.)
\<close>

type_synonym rng = "nat \<Rightarrow> nat"

definition rnd :: "int \<Rightarrow> int \<Rightarrow> rng \<Rightarrow> int \<times> rng" where
  "rnd a b g = (a + int (g 0 mod nat (b - a + 1)), \<lambda>n. g (Suc n))"

subsection \<open>Map helpers\<close>

definition in_grid :: "int \<Rightarrow> int \<Rightarrow> bool" where
  "in_grid x y = (x \<ge> 0 \<and> x < MAP_W \<and> y \<ge> 0 \<and> y < MAP_H)"

definition cell_at :: "Grid \<Rightarrow> int \<Rightarrow> int \<Rightarrow> char" where
  "cell_at m x y = m ! nat y ! nat x"

definition set_cell :: "Grid \<Rightarrow> int \<Rightarrow> int \<Rightarrow> char \<Rightarrow> Grid" where
  "set_cell m x y c = m[nat y := (m ! nat y)[nat x := c]]"

definition create_empty_map :: Grid where
  "create_empty_map = replicate (nat MAP_H) (replicate (nat MAP_W) CHR ''#'')"

text \<open>The guarded store \<^verbatim>\<open>if (in bounds) map[y][x]='.'\<close> shared by the three carvers.\<close>

definition carve_cell :: "Grid \<Rightarrow> int \<Rightarrow> int \<Rightarrow> Grid" where
  "carve_cell m x y = (if in_grid x y then set_cell m x y CHR ''.'' else m)"

definition carve_room :: "Grid \<Rightarrow> Rect \<Rightarrow> Grid" where
  "carve_room m r =
     fold (\<lambda>yy m1. fold (\<lambda>xx m2. carve_cell m2 xx yy) [rect_x r .. rect_x r + rect_w r - 1] m1)
       [rect_y r .. rect_y r + rect_h r - 1] m"

definition carve_h :: "Grid \<Rightarrow> int \<Rightarrow> int \<Rightarrow> int \<Rightarrow> Grid" where
  "carve_h m x1 x2 y =
     (let a = (if x2 < x1 then x2 else x1); b = (if x2 < x1 then x1 else x2)
      in fold (\<lambda>x m1. carve_cell m1 x y) [a .. b] m)"

definition carve_v :: "Grid \<Rightarrow> int \<Rightarrow> int \<Rightarrow> int \<Rightarrow> Grid" where
  "carve_v m y1 y2 x =
     (let a = (if y2 < y1 then y2 else y1); b = (if y2 < y1 then y1 else y2)
      in fold (\<lambda>y m1. carve_cell m1 x y) [a .. b] m)"

definition floor_cells :: "Grid \<Rightarrow> cell list" where
  "floor_cells m =
     concat (map (\<lambda>y. map (\<lambda>x. (x, y)) (filter (\<lambda>x. cell_at m x y = CHR ''.'') [0 .. MAP_W - 1]))
       [0 .. MAP_H - 1])"

definition random_floor_tile :: "Grid \<Rightarrow> rng \<Rightarrow> cell \<times> rng" where
  "random_floor_tile m g =
     (let floors = floor_cells m
      in if floors = [] then ((1, 1), g)
         else (case rnd 0 (int (length floors) - 1) g of (k, g1) \<Rightarrow> (floors ! nat k, g1)))"

subsection \<open>Dungeon generation\<close>

text \<open>
  The room loop of \<^verbatim>\<open>generate_map_basic\<close>. A candidate that intersects an accepted room
  is dropped with \<^verbatim>\<open>i--; continue\<close>, so the same slot is tried again with fresh draws:
  the loop has no bound on its retries, and nothing makes it return on a stream whose
  draws intersect for ever. Not returning is the value \<open>None\<close>.
\<close>

partial_function (option) room_loop ::
  "int \<Rightarrow> int \<Rightarrow> Grid \<Rightarrow> Rect list \<Rightarrow> rng \<Rightarrow> (Grid \<times> Rect list \<times> rng) option" where
  "room_loop i roomCount m rooms g =
     (if i < roomCount then
        (case rnd 3 8 g of (w, g1) \<Rightarrow>
         case rnd 3 5 g1 of (h, g2) \<Rightarrow>
         case rnd 1 (MAP_W - w - 1) g2 of (x, g3) \<Rightarrow>
         case rnd 1 (MAP_H - h - 1) g3 of (y, g4) \<Rightarrow>
           (let r = \<lparr>rect_x = x, rect_y = y, rect_w = w, rect_h = h\<rparr> in
            if list_ex (intersects r) rooms then room_loop i roomCount m rooms g4
            else if rooms \<noteq> [] then
              (case rnd 0 1 g4 of (c, g5) \<Rightarrow>
                 (let m1 = carve_room m r;
                      px = centerX (last rooms); py = centerY (last rooms);
                      cx = centerX r; cy = centerY r;
                      m2 = (if c = 0 then carve_v (carve_h m1 px cx py) py cy cx
                            else carve_h (carve_v m1 py cy px) px cx cy)
                  in room_loop (i + 1) roomCount m2 (rooms @ [r]) g5))
            else room_loop (i + 1) roomCount (carve_room m r) (rooms @ [r]) g4))
      else Some (m, rooms, g))"

declare room_loop.simps [code]

definition any_floor :: "Grid \<Rightarrow> bool" where
  "any_floor m = list_ex (\<lambda>y. list_ex (\<lambda>x. cell_at m x y = CHR ''.'') [0 .. MAP_W - 1]) [0 .. MAP_H - 1]"

definition carve_interior :: "Grid \<Rightarrow> Grid" where
  "carve_interior m =
     fold (\<lambda>y m1. fold (\<lambda>x m2. set_cell m2 x y CHR ''.'') [1 .. MAP_W - 2] m1) [1 .. MAP_H - 2] m"

definition generate_map_basic :: "rng \<Rightarrow> (Grid \<times> Rect list \<times> rng) option" where
  "generate_map_basic g =
     (case rnd 3 6 g of (roomCount, g1) \<Rightarrow>
        (case room_loop 0 roomCount create_empty_map [] g1 of
           None \<Rightarrow> None
         | Some (m, rooms, g2) \<Rightarrow>
             Some (if any_floor m then m else carve_interior m, rooms, g2)))"

subsection \<open>Entity placement\<close>

text \<open>
  The two placement loops of \<^verbatim>\<open>regenerate_map\<close> retry a slot, again without a bound,
  when the drawn floor tile is the player's or is taken.
\<close>

partial_function (option) enemy_loop ::
  "int \<Rightarrow> int \<Rightarrow> Grid \<Rightarrow> cell \<Rightarrow> DiffConfig \<Rightarrow> Enemy list \<Rightarrow> rng \<Rightarrow> (Enemy list \<times> rng) option" where
  "enemy_loop i ecount m pl cfg enemies g =
     (if i < ecount then
        (case random_floor_tile m g of (p, g1) \<Rightarrow>
           if fst p = fst pl \<and> snd p = snd pl then enemy_loop i ecount m pl cfg enemies g1
           else if list_ex (\<lambda>e. enemy_x e = fst p \<and> enemy_y e = snd p) enemies
             then enemy_loop i ecount m pl cfg enemies g1
           else (case rnd (enemyHpMin cfg) (enemyHpMax cfg) g1 of (h, g2) \<Rightarrow>
             enemy_loop (i + 1) ecount m pl cfg
               (enemies @ [\<lparr>enemy_x = fst p, enemy_y = snd p, hp = h, alive = True\<rparr>]) g2))
      else Some (enemies, g))"

partial_function (option) item_loop ::
  "int \<Rightarrow> int \<Rightarrow> Grid \<Rightarrow> cell \<Rightarrow> Enemy list \<Rightarrow> Item list \<Rightarrow> rng \<Rightarrow> (Item list \<times> rng) option" where
  "item_loop i pcount m pl enemies items g =
     (if i < pcount then
        (case random_floor_tile m g of (p, g1) \<Rightarrow>
           if fst p = fst pl \<and> snd p = snd pl then item_loop i pcount m pl enemies items g1
           else if list_ex (\<lambda>it. item_x it = fst p \<and> item_y it = snd p) items \<or>
                   list_ex (\<lambda>e. enemy_x e = fst p \<and> enemy_y e = snd p) enemies
             then item_loop i pcount m pl enemies items g1
           else item_loop (i + 1) pcount m pl enemies
                  (items @ [\<lparr>item_x = fst p, item_y = snd p\<rparr>]) g1)
      else Some (items, g))"

declare enemy_loop.simps [code]
declare item_loop.simps [code]

subsection \<open>Session state\<close>

text \<open>
  The file \<^verbatim>\<open>highscore.txt\<close>: its number when it exists, and whether it can be opened
  for writing.
\<close>

record HsFile =
  content :: "int option"
  writable :: bool

definition load_high_score :: "HsFile \<Rightarrow> int" where
  "load_high_score f = (case content f of None \<Rightarrow> 0 | Some h \<Rightarrow> h)"

definition save_high_score :: "HsFile \<Rightarrow> int \<Rightarrow> HsFile" where
  "save_high_score f h = (if \<not> writable f then f else f\<lparr>content := Some h\<rparr>)"

text \<open>The local variables of \<^verbatim>\<open>main\<close>, with the generator state and the file.\<close>

record Session =
  mapG :: Grid
  rooms :: "Rect list"
  playerX :: int
  playerY :: int
  enemies :: "Enemy list"
  items :: "Item list"
  playerMaxHP :: int
  playerAttack :: int
  enemyAttackDamage :: int
  potionHeal :: int
  score :: int
  playerHP :: int
  turns :: int
  highScore :: int
  diff :: Difficulty
  rng :: rng
  hsFile :: HsFile

definition regenerate_map :: "Session \<Rightarrow> Session option" where
  "regenerate_map s =
     (case generate_map_basic (rng s) of
        None \<Rightarrow> None
      | Some (m, rs, g1) \<Rightarrow>
         (case (if rs \<noteq> [] then ((centerX (hd rs), centerY (hd rs)), g1)
                else random_floor_tile m g1) of (pl, g2) \<Rightarrow>
          (let cfg = diffConfigs (diff s) in
           case rnd (enemyMin cfg) (enemyMax cfg) g2 of (ecount, g3) \<Rightarrow>
           (case enemy_loop 0 ecount m pl cfg [] g3 of
              None \<Rightarrow> None
            | Some (es, g4) \<Rightarrow>
               (case rnd (potionMin cfg) (potionMax cfg) g4 of (pcount, g5) \<Rightarrow>
                (case item_loop 0 pcount m pl es [] g5 of
                   None \<Rightarrow> None
                 | Some (its, g6) \<Rightarrow>
                    (case rnd (enemyAtkMin cfg) (enemyAtkMax cfg) g6 of (ead, g7) \<Rightarrow>
                       Some (s\<lparr>mapG := m, rooms := rs, playerX := fst pl, playerY := snd pl,
                               enemies := es, items := its, playerMaxHP := 20,
                               playerAttack := 4, enemyAttackDamage := ead, potionHeal := 0,
                               score := 0, rng := g7\<rparr>))))))))"

subsection \<open>Pathfinding\<close>

text \<open>
  The lambda \<^verbatim>\<open>blocked\<close> of \<^verbatim>\<open>bfs_next_step\<close>: outside the grid, not a floor tile,
  or a tile of \<^verbatim>\<open>occupied\<close> other than the target.
\<close>

definition blocked :: "Grid \<Rightarrow> cell \<Rightarrow> cell list \<Rightarrow> cell \<Rightarrow> bool" where
  "blocked m t occ c =
     (if \<not> in_grid (fst c) (snd c) then True
      else if cell_at m (fst c) (snd c) \<noteq> CHR ''.'' then True
      else list_ex (\<lambda>p. fst p = fst c \<and> snd p = snd c \<and> \<not> (fst c = fst t \<and> snd c = snd t)) occ)"

definition dirs :: "cell list" where
  "dirs = [(1, 0), (- 1, 0), (0, 1), (0, - 1)]"

text \<open>
  The state of the search: the queue, the array \<^verbatim>\<open>vis\<close> and the array \<^verbatim>\<open>parent\<close>.
  \<^verbatim>\<open>vis{}\<close> starts all false, and the pairs of \<^verbatim>\<open>parent\<close> are value-initialised to
  \<open>(0, 0)\<close>. The arrays are functions of the cell; the search only reads and writes
  them inside the grid, but for the store \<^verbatim>\<open>vis[sy][sx] = true\<close> at the start cell,
  which \<open>bfs_next_step\<close> below treats apart.
\<close>

type_synonym bfs_state = "cell list \<times> (cell \<Rightarrow> bool) \<times> (cell \<Rightarrow> cell)"

text \<open>One round of the loop over \<^verbatim>\<open>dirs\<close>, for the cell \<open>cur\<close> taken from the queue.\<close>

definition visit :: "Grid \<Rightarrow> cell \<Rightarrow> cell list \<Rightarrow> cell \<Rightarrow> bfs_state \<Rightarrow> cell \<Rightarrow> bfs_state" where
  "visit m t occ cur st d =
     (case st of (q, vis, parent) \<Rightarrow>
        (let n = (fst cur + fst d, snd cur + snd d) in
         if \<not> in_grid (fst n) (snd n) then st
         else if vis n then st
         else if blocked m t occ n then st
         else (q @ [n], vis(n := True), parent(n := cur))))"

definition unvisited :: "(cell \<Rightarrow> bool) \<Rightarrow> cell set" where
  "unvisited vis = {c \<in> {0 ..< MAP_W} \<times> {0 ..< MAP_H}. \<not> vis c}"

lemma finite_unvisited: "finite (unvisited vis)"
  by (simp add: unvisited_def)

lemma visit_measure:
  "visit m t occ cur (q, vis, parent) d = (q', vis', parent') \<Longrightarrow>
   2 * card (unvisited vis') + length q' \<le> 2 * card (unvisited vis) + length q"
proof -
  assume v: "visit m t occ cur (q, vis, parent) d = (q', vis', parent')"
  let ?n = "(fst cur + fst d, snd cur + snd d)"
  show ?thesis
  proof (cases "in_grid (fst ?n) (snd ?n) \<and> \<not> vis ?n \<and> \<not> blocked m t occ ?n")
    case False
    with v have "q' = q" "vis' = vis"
      by (auto simp: visit_def Let_def split: if_splits)
    then show ?thesis by simp
  next
    case True
    with v have q': "q' = q @ [?n]" and vis': "vis' = vis(?n := True)"
      by (auto simp: visit_def Let_def split: if_splits)
    from True have mem: "?n \<in> unvisited vis"
      by (simp add: unvisited_def in_grid_def)
    have "unvisited vis' = unvisited vis - {?n}"
      unfolding vis' unvisited_def by auto
    then have "card (unvisited vis') = card (unvisited vis) - 1"
      using mem by (simp add: finite_unvisited)
    moreover have "card (unvisited vis) > 0"
      using mem finite_unvisited [of vis] by (auto simp: card_gt_0_iff)
    ultimately show ?thesis using q' by simp
  qed
qed

lemma foldl_visit_measure:
  "foldl (visit m t occ cur) (q, vis, parent) ds = (q', vis', parent') \<Longrightarrow>
   2 * card (unvisited vis') + length q' \<le> 2 * card (unvisited vis) + length q"
proof (induction ds arbitrary: q vis parent)
  case Nil
  then show ?case by simp
next
  case (Cons d ds)
  obtain q1 vis1 parent1 where v: "visit m t occ cur (q, vis, parent) d = (q1, vis1, parent1)"
    by (cases "visit m t occ cur (q, vis, parent) d") auto
  from Cons.prems v have "foldl (visit m t occ cur) (q1, vis1, parent1) ds = (q', vis', parent')"
    by simp
  from Cons.IH [OF this] visit_measure [OF v] show ?case by linarith
qed

text \<open>
  The \<^verbatim>\<open>while(!q.empty())\<close> loop. It returns \<^verbatim>\<open>found\<close> and the array \<^verbatim>\<open>parent\<close>.
  Every round takes one cell from the queue and marks the cells it adds, so the loop ends.
\<close>

function bfs_loop :: "Grid \<Rightarrow> cell \<Rightarrow> cell list \<Rightarrow> bfs_state \<Rightarrow> bool \<times> (cell \<Rightarrow> cell)" where
  "bfs_loop m t occ ([], vis, parent) = (False, parent)"
| "bfs_loop m t occ (cur # q, vis, parent) =
     (if fst cur = fst t \<and> snd cur = snd t then (True, parent)
      else bfs_loop m t occ (foldl (visit m t occ cur) (q, vis, parent) dirs))"
  by pat_completeness auto
termination
proof (relation "measure (\<lambda>(m, t, occ, q, vis, parent). 2 * card (unvisited vis) + length q)")
  show "wf (measure (\<lambda>(m, t, occ, q, vis, parent). 2 * card (unvisited vis) + length q))"
    by simp
next
  fix m :: Grid and t :: cell and occ :: "cell list" and cur :: cell and q :: "cell list"
    and vis :: "cell \<Rightarrow> bool" and parent :: "cell \<Rightarrow> cell"
  obtain q' vis' parent' where
    f: "foldl (visit m t occ cur) (q, vis, parent) dirs = (q', vis', parent')"
    by (cases "foldl (visit m t occ cur) (q, vis, parent) dirs") auto
  from foldl_visit_measure [OF f]
  show "((m, t, occ, foldl (visit m t occ cur) (q, vis, parent) dirs), (m, t, occ, cur # q, vis, parent))
        \<in> measure (\<lambda>(m, t, occ, q, vis, parent). 2 * card (unvisited vis) + length q)"
    by (simp add: f)
qed

text \<open>
  The walk back from the target along \<^verbatim>\<open>parent\<close>, to the cell whose parent is the start.
  It is a loop on the contents of an array; not returning is the value \<open>None\<close>.
\<close>

partial_function (option) backtrack :: "(cell \<Rightarrow> cell) \<Rightarrow> cell \<Rightarrow> cell \<Rightarrow> cell option" where
  "backtrack parent s cur =
     (if fst (parent cur) = fst s \<and> snd (parent cur) = snd s then Some cur
      else backtrack parent s (parent cur))"

declare backtrack.simps [code]

definition greedy_step :: "Grid \<Rightarrow> cell \<Rightarrow> cell \<Rightarrow> cell list \<Rightarrow> cell" where
  "greedy_step m s t occ =
     (let sx = fst s; sy = snd s; tx = fst t; ty = snd t;
          dx = (if tx > sx then 1 else if tx < sx then - 1 else 0);
          dy = (if ty > sy then 1 else if ty < sy then - 1 else 0)
      in if \<bar>tx - sx\<bar> \<ge> \<bar>ty - sy\<bar> then
           (if \<not> blocked m t occ (sx + dx, sy) then (sx + dx, sy)
            else if \<not> blocked m t occ (sx, sy + dy) then (sx, sy + dy)
            else (sx, sy))
         else
           (if \<not> blocked m t occ (sx, sy + dy) then (sx, sy + dy)
            else if \<not> blocked m t occ (sx + dx, sy) then (sx + dx, sy)
            else (sx, sy)))"

text \<open>
  \<^verbatim>\<open>bfs_next_step\<close>. After the test for \<open>start = target\<close> the source stores into
  \<^verbatim>\<open>vis[sy][sx]\<close> without a bounds test: for a start outside the grid that store is
  out of range and the behaviour of the program is undefined, so the model gives no
  result (\<open>None\<close>) there.
\<close>

definition bfs_next_step :: "Grid \<Rightarrow> cell \<Rightarrow> cell \<Rightarrow> cell list \<Rightarrow> cell option" where
  "bfs_next_step m s t occ =
     (if fst s = fst t \<and> snd s = snd t then Some s
      else if \<not> in_grid (fst s) (snd s) then None
      else (case bfs_loop m t occ ([s], (\<lambda>c. False)(s := True), (\<lambda>c. (0, 0))) of
              (found, parent) \<Rightarrow>
                if \<not> found then Some (greedy_step m s t occ)
                else backtrack parent s t))"

subsection \<open>The player's action\<close>

fun enemy_index_from :: "Enemy list \<Rightarrow> int \<Rightarrow> int \<Rightarrow> int \<Rightarrow> int" where
  "enemy_index_from [] x y i = - 1"
| "enemy_index_from (e # es) x y i =
     (if alive e \<and> enemy_x e = x \<and> enemy_y e = y then i else enemy_index_from es x y (i + 1))"

definition enemy_index_at :: "Enemy list \<Rightarrow> int \<Rightarrow> int \<Rightarrow> int" where
  "enemy_index_at es x y = enemy_index_from es x y 0"

fun item_index_from :: "Item list \<Rightarrow> int \<Rightarrow> int \<Rightarrow> int \<Rightarrow> int" where
  "item_index_from [] x y i = - 1"
| "item_index_from (it # its) x y i =
     (if item_x it = x \<and> item_y it = y then i else item_index_from its x y (i + 1))"

definition item_index_at :: "Item list \<Rightarrow> int \<Rightarrow> int \<Rightarrow> int" where
  "item_index_at its x y = item_index_from its x y 0"

text \<open>\<^verbatim>\<open>items.erase(items.begin() + itidx)\<close>.\<close>

definition erase_at :: "'a list \<Rightarrow> nat \<Rightarrow> 'a list" where
  "erase_at xs k = take k xs @ drop (Suc k) xs"

text \<open>The destination of a key, or \<open>None\<close> for a key that is no move.\<close>

definition destination :: "Session \<Rightarrow> char \<Rightarrow> cell option" where
  "destination s ch =
     (if ch = CHR ''w'' \<or> ch = CHR ''W'' then Some (playerX s, playerY s - 1)
      else if ch = CHR ''s'' \<or> ch = CHR ''S'' then Some (playerX s, playerY s + 1)
      else if ch = CHR ''a'' \<or> ch = CHR ''A'' then Some (playerX s - 1, playerY s)
      else if ch = CHR ''d'' \<or> ch = CHR ''D'' then Some (playerX s + 1, playerY s)
      else None)"

definition attack_enemy :: "Session \<Rightarrow> int \<Rightarrow> int \<Rightarrow> nat \<Rightarrow> Session" where
  "attack_enemy s nx ny eidx =
     (let es1 = (enemies s)[eidx := (enemies s ! eidx)\<lparr>hp := hp (enemies s ! eidx) - playerAttack s\<rparr>]
      in if hp (es1 ! eidx) \<le> 0 then
           s\<lparr>enemies := es1[eidx := (es1 ! eidx)\<lparr>alive := False\<rparr>],
             score := score s + 10, playerX := nx, playerY := ny, turns := turns s + 1\<rparr>
         else s\<lparr>enemies := es1, turns := turns s + 1\<rparr>)"

definition pickup_or_move :: "Session \<Rightarrow> int \<Rightarrow> int \<Rightarrow> Session" where
  "pickup_or_move s nx ny =
     (let itidx = item_index_at (items s) nx ny;
          s1 = (if itidx \<noteq> - 1 then
                  (case rnd 6 10 (rng s) of (heal, g1) \<Rightarrow>
                     s\<lparr>playerHP := min (playerMaxHP s) (playerHP s + heal),
                       items := erase_at (items s) (nat itidx), rng := g1\<rparr>)
                else s)
      in s1\<lparr>playerX := nx, playerY := ny, turns := turns s1 + 1\<rparr>)"

text \<open>
  The part of the loop body from the key to the enemy turn. \<open>None\<close> is the
  \<^verbatim>\<open>continue\<close> of an unknown key or of a move out of bounds: no turn is taken.
\<close>

definition apply_player_action :: "Session \<Rightarrow> char \<Rightarrow> Session option" where
  "apply_player_action s ch =
     (case destination s ch of
        None \<Rightarrow> None
      | Some (nx, ny) \<Rightarrow>
          if \<not> in_grid nx ny then None
          else if cell_at (mapG s) nx ny = CHR ''#'' then Some (s\<lparr>turns := turns s + 1\<rparr>)
          else (let eidx = enemy_index_at (enemies s) nx ny in
                if eidx \<noteq> - 1 then Some (attack_enemy s nx ny (nat eidx))
                else Some (pickup_or_move s nx ny)))"

subsection \<open>The enemy turn\<close>

text \<open>The list \<^verbatim>\<open>occ\<close> built for enemy \<open>i\<close>: the cells of the other live enemies.\<close>

definition others :: "Enemy list \<Rightarrow> nat \<Rightarrow> cell list" where
  "others es i =
     map (\<lambda>j. (enemy_x (es ! j), enemy_y (es ! j))) (filter (\<lambda>j. j \<noteq> i \<and> alive (es ! j)) [0 ..< length es])"

definition plan_one :: "Session \<Rightarrow> nat \<Rightarrow> cell option" where
  "plan_one s i =
     (if \<not> alive (enemies s ! i) then Some (- 1, - 1)
      else bfs_next_step (mapG s) (enemy_x (enemies s ! i), enemy_y (enemies s ! i))
             (playerX s, playerY s) (others (enemies s) i))"

text \<open>The vector \<^verbatim>\<open>nextPos\<close>; \<open>None\<close> when a call of \<open>bfs_next_step\<close> gives no result.\<close>

definition plan_moves :: "Session \<Rightarrow> cell list option" where
  "plan_moves s = those (map (plan_one s) [0 ..< length (enemies s)])"

text \<open>
  One round of the resolution loop, for enemy \<open>i\<close>, on the session and the set
  \<^verbatim>\<open>reserved\<close>.
\<close>

definition resolve_agent :: "cell list \<Rightarrow> nat \<Rightarrow> Session \<times> cell set \<Rightarrow> Session \<times> cell set" where
  "resolve_agent nextPos i sr =
     (case sr of (s, reserved) \<Rightarrow>
        (let e = enemies s ! i; intended = nextPos ! i in
         if \<not> alive e then (s, reserved)
         else if fst intended = playerX s \<and> snd intended = playerY s then
           (case rnd (enemyAtkMin (diffConfigs (diff s))) (enemyAtkMax (diffConfigs (diff s))) (rng s) of
              (edmg, g1) \<Rightarrow>
                (s\<lparr>playerHP := playerHP s - edmg, rng := g1\<rparr>, insert (enemy_x e, enemy_y e) reserved))
         else
           (let blocked1 = (fst intended < 0);
                blocked2 = (if \<not> blocked1 then
                              (cell_at (mapG s) (fst intended) (snd intended) \<noteq> CHR ''.'' \<or> intended \<in> reserved)
                            else blocked1)
            in if blocked2 then (s, insert (enemy_x e, enemy_y e) reserved)
               else (s\<lparr>enemies := (enemies s)[i := e\<lparr>enemy_x := fst intended, enemy_y := snd intended\<rparr>]\<rparr>,
                     insert intended reserved))))"

definition resolve_moves :: "Session \<Rightarrow> cell list \<Rightarrow> Session \<times> cell set" where
  "resolve_moves s nextPos = fold (resolve_agent nextPos) [0 ..< length (enemies s)] (s, {})"

text \<open>The scan after the resolution: an enemy on the player's tile hits once more.\<close>

definition rescan_agent :: "Enemy \<Rightarrow> Session \<Rightarrow> Session" where
  "rescan_agent e s =
     (if \<not> alive e then s
      else if enemy_x e = playerX s \<and> enemy_y e = playerY s then
        (case rnd (enemyAtkMin (diffConfigs (diff s))) (enemyAtkMax (diffConfigs (diff s))) (rng s) of
           (edmg, g1) \<Rightarrow> s\<lparr>playerHP := playerHP s - edmg, rng := g1\<rparr>)
      else s)"

definition rescan :: "Session \<Rightarrow> Session" where
  "rescan s = fold rescan_agent (enemies s) s"

definition cap_hp :: "Session \<Rightarrow> Session" where
  "cap_hp s = (if playerHP s > 999 then s\<lparr>playerHP := 999\<rparr> else s)"

definition enemy_turn :: "Session \<Rightarrow> Session option" where
  "enemy_turn s =
     (case plan_moves s of
        None \<Rightarrow> None
      | Some nextPos \<Rightarrow> Some (cap_hp (rescan (fst (resolve_moves s nextPos)))))"

subsection \<open>The main loop\<close>

definition flush_high_score :: "Session \<Rightarrow> Session" where
  "flush_high_score s =
     (if score s > highScore s then s\<lparr>hsFile := save_high_score (hsFile s) (score s)\<rparr> else s)"

text \<open>
  The loop of \<^verbatim>\<open>main\<close> on the characters that \<^verbatim>\<open>cin >> ch\<close> will deliver (white space
  skipped); the read fails when the list is empty. The result is the session when the loop
  is left. What the program prints is not modelled.
\<close>

fun main_loop :: "Session \<Rightarrow> char list \<Rightarrow> Session option" where
  "main_loop s [] = (if playerHP s \<le> 0 then Some (flush_high_score s) else Some s)"
| "main_loop s (ch # inp) =
     (if playerHP s \<le> 0 then Some (flush_high_score s)
      else if ch = CHR ''q'' \<or> ch = CHR ''Q'' then Some (flush_high_score s)
      else (case apply_player_action s ch of
              None \<Rightarrow> main_loop s inp
            | Some s1 \<Rightarrow>
               (case enemy_turn s1 of
                  None \<Rightarrow> None
                | Some s2 \<Rightarrow> main_loop s2 inp)))"

text \<open>
  The start of \<^verbatim>\<open>main\<close>: the locals as they are declared, the placement, then
  \<^verbatim>\<open>playerHP\<close>, \<^verbatim>\<open>turns\<close> and the high score read from the file (the source declares
  these three only then; the record holds 0 for them until they are set).
\<close>

definition choose_difficulty :: "int \<Rightarrow> Difficulty" where
  "choose_difficulty dchoice = (if dchoice = 1 then EASY else if dchoice = 3 then HARD else NORMAL)"

definition declared_locals :: "Difficulty \<Rightarrow> rng \<Rightarrow> HsFile \<Rightarrow> Session" where
  "declared_locals d g f =
     \<lparr>mapG = [], rooms = [], playerX = 1, playerY = 1, enemies = [], items = [],
      playerMaxHP = 20, playerAttack = 4, enemyAttackDamage = 2, potionHeal = 8,
      score = 0, playerHP = 0, turns = 0, highScore = 0, diff = d, rng = g, hsFile = f\<rparr>"

definition initial_session :: "Difficulty \<Rightarrow> rng \<Rightarrow> HsFile \<Rightarrow> Session option" where
  "initial_session d g f =
     (case regenerate_map (declared_locals d g f) of
        None \<Rightarrow> None
      | Some s \<Rightarrow> Some (s\<lparr>playerHP := playerMaxHP s, turns := 0, highScore := load_high_score f\<rparr>))"

text \<open>
  The whole of \<^verbatim>\<open>main\<close>: the difficulty read first (the program ends at once when that
  read fails), then the characters of the moves. The result is the file when the program
  exits.
\<close>

definition main_program :: "int option \<Rightarrow> char list \<Rightarrow> rng \<Rightarrow> HsFile \<Rightarrow> HsFile option" where
  "main_program dchoice inp g f =
     (case dchoice of
        None \<Rightarrow> Some f
      | Some dc \<Rightarrow>
         (case initial_session (choose_difficulty dc) g f of
            None \<Rightarrow> None
          | Some s \<Rightarrow> map_option hsFile (main_loop s inp)))"

text \<open>
  The states of a run: an initial session, then any sequence of player actions and
  enemy turns.
\<close>

inductive reachable :: "Session \<Rightarrow> bool" where
  reach_init: "initial_session d g f = Some s \<Longrightarrow> reachable s"
| reach_action: "reachable s \<Longrightarrow> apply_player_action s ch = Some s' \<Longrightarrow> reachable s'"
| reach_enemy: "reachable s \<Longrightarrow> enemy_turn s = Some s' \<Longrightarrow> reachable s'"

subsection \<open>Paths on the grid\<close>

text \<open>
  What the claims on the pathfinder speak of. A step goes from a cell to one of its four
  neighbours that is not blocked (inside the grid, a floor tile, and not a cell of
  \<open>occ\<close> unless it is the target). A path is a non-empty list of cells joined by steps;
  its first cell may be any cell.
\<close>

definition step_ok :: "Grid \<Rightarrow> cell \<Rightarrow> cell list \<Rightarrow> cell \<Rightarrow> cell \<Rightarrow> bool" where
  "step_ok m t occ c c' =
     (list_ex (\<lambda>d. c' = (fst c + fst d, snd c + snd d)) dirs \<and> \<not> blocked m t occ c')"

fun is_path :: "Grid \<Rightarrow> cell \<Rightarrow> cell list \<Rightarrow> cell list \<Rightarrow> bool" where
  "is_path m t occ [] = False"
| "is_path m t occ [c] = True"
| "is_path m t occ (c # c' # cs) = (step_ok m t occ c c' \<and> is_path m t occ (c' # cs))"

definition path_from_to :: "Grid \<Rightarrow> cell list \<Rightarrow> cell \<Rightarrow> cell \<Rightarrow> cell list \<Rightarrow> bool" where
  "path_from_to m occ s t p = (is_path m t occ p \<and> hd p = s \<and> last p = t)"

definition manhattan :: "cell \<Rightarrow> cell \<Rightarrow> int" where
  "manhattan a b = \<bar>fst a - fst b\<bar> + \<bar>snd a - snd b\<bar>"

definition open_grid :: "Grid \<Rightarrow> bool" where
  "open_grid m =
     list_all (\<lambda>y. list_all (\<lambda>x. cell_at m x y = CHR ''.'') [0 .. MAP_W - 1]) [0 .. MAP_H - 1]"

text \<open>
  The greedy fallback as the specification words it, to be compared with \<open>greedy_step\<close>:
  one cell towards the target along the axis with the larger distance (the horizontal one
  on a tie), else one cell along the other axis, each only when there is such a step and
  it lands on a cell that is not blocked; else the start.
\<close>

definition toward :: "int \<Rightarrow> int \<Rightarrow> int" where
  "toward a b = (if a < b then a + 1 else if b < a then a - 1 else a)"

definition greedy_spec :: "Grid \<Rightarrow> cell \<Rightarrow> cell \<Rightarrow> cell list \<Rightarrow> cell" where
  "greedy_spec m s t occ =
     (let horizontal = (toward (fst s) (fst t), snd s);
          vertical = (fst s, toward (snd s) (snd t));
          wide = (\<bar>fst t - fst s\<bar> \<ge> \<bar>snd t - snd s\<bar>);
          first = (if wide then horizontal else vertical);
          second = (if wide then vertical else horizontal)
      in if first \<noteq> s \<and> \<not> blocked m t occ first then first
         else if second \<noteq> s \<and> \<not> blocked m t occ second then second
         else s)"


subsection \<open>A session to run the definitions on\<close>

definition demo_map :: Grid where
  "demo_map =
     [''####################'',
      ''#........###########'',
      ''#........###########'',
      ''#........###########'',
      ''####################'',
      ''####################'',
      ''####################'',
      ''####################'',
      ''####################'',
      ''####################'']"

definition demo_session :: Session where
  "demo_session =
     \<lparr>mapG = demo_map, rooms = [\<lparr>rect_x = 1, rect_y = 1, rect_w = 8, rect_h = 3\<rparr>],
      playerX = 2, playerY = 2,
      enemies = [\<lparr>enemy_x = 3, enemy_y = 2, hp = 3, alive = True\<rparr>,
                 \<lparr>enemy_x = 6, enemy_y = 2, hp = 9, alive = True\<rparr>],
      items = [\<lparr>item_x = 2, item_y = 3\<rparr>],
      playerMaxHP = 20, playerAttack = 4, enemyAttackDamage = 2, potionHeal = 0,
      score = 0, playerHP = 17, turns = 0, highScore = 0, diff = EASY,
      rng = (\<lambda>n. 4), hsFile = \<lparr>content = None, writable = True\<rparr>\<rparr>"

text \<open>
  A stream for the generator: three rooms of 3 by 3 at \<open>x = 1, 6, 11\<close>, joined by
  corridors, then (on the easy tier) two enemies and five potions on the first floor
  tiles that are free. After its last listed draw the stream gives 0 for ever.
\<close>

definition demo_draws :: "nat list" where
  "demo_draws =
     [0, 0, 0, 0, 0, 0, 0, 5, 0, 0, 0, 0, 10, 0, 0, 0, 0, 0, 1, 0, 0, 2, 3, 4, 5, 6, 0]"

definition demo_rng :: rng where
  "demo_rng = (\<lambda>n. if n < length demo_draws then demo_draws ! n else 0)"

definition demo_file :: HsFile where
  "demo_file = \<lparr>content = None, writable = True\<rparr>"

definition demo_open_map :: Grid where
  "demo_open_map = replicate (nat MAP_H) (replicate (nat MAP_W) CHR ''.'')"


subsection \<open>Predicates of the proofs\<close>

text \<open>
  The cells the loop over \<^verbatim>\<open>dirs\<close> adds for \<open>cur\<close>; the invariant of the search, for a
  level function \<open>dl\<close> that counts the steps from the start along \<^verbatim>\<open>parent\<close>; and the
  grids and floor cells of the generator.
\<close>

definition nbrs :: "cell \<Rightarrow> cell list \<Rightarrow> cell list" where
  "nbrs cur ds = map (\<lambda>d. (fst cur + fst d, snd cur + snd d)) ds"

definition fresh :: "Grid \<Rightarrow> cell \<Rightarrow> cell list \<Rightarrow> (cell \<Rightarrow> bool) \<Rightarrow> cell \<Rightarrow> cell list \<Rightarrow> cell list" where
  "fresh m t occ vis cur ds = filter (\<lambda>n. \<not> vis n \<and> \<not> blocked m t occ n) (nbrs cur ds)"

definition bfs_inv :: "Grid \<Rightarrow> cell \<Rightarrow> cell \<Rightarrow> cell list \<Rightarrow> (cell \<Rightarrow> nat) \<Rightarrow> bfs_state \<Rightarrow> bool" where
  "bfs_inv m s t occ dl st =
     (case st of (q, vis, par) \<Rightarrow>
        vis s \<and> dl s = 0 \<and>
        (\<forall>c. vis c \<and> c \<noteq> s \<longrightarrow> vis (par c) \<and> step_ok m t occ (par c) c \<and> dl c = Suc (dl (par c))) \<and>
        (\<forall>c \<in> set q. vis c) \<and> sorted (map dl q) \<and>
        (\<forall>c. vis c \<and> q \<noteq> [] \<longrightarrow> dl c \<le> Suc (dl (hd q))) \<and>
        (\<forall>c. vis c \<and> c \<notin> set q \<longrightarrow>
            c \<noteq> t \<and> (\<forall>c'. step_ok m t occ c c' \<longrightarrow> vis c' \<and> dl c' \<le> Suc (dl c))))"

definition within :: "(cell \<Rightarrow> nat) \<Rightarrow> bfs_state \<Rightarrow> nat \<Rightarrow> cell \<Rightarrow> bool" where
  "within dl st k c =
     (case st of (q, vis, par) \<Rightarrow> (vis c \<and> dl c \<le> k) \<or> (q \<noteq> [] \<and> dl (hd q) \<le> k))"

definition wf_grid :: "Grid \<Rightarrow> bool" where
  "wf_grid m = (length m = nat MAP_H \<and> (\<forall>row \<in> set m. length row = nat MAP_W))"

definition is_floor :: "Grid \<Rightarrow> cell \<Rightarrow> bool" where
  "is_floor m c = (in_grid (fst c) (snd c) \<and> cell_at m (fst c) (snd c) = CHR ''.'')"

definition room_ok :: "Rect \<Rightarrow> bool" where
  "room_ok r =
     (1 \<le> rect_x r \<and> 3 \<le> rect_w r \<and> rect_x r + rect_w r \<le> MAP_W - 1 \<and>
      1 \<le> rect_y r \<and> 3 \<le> rect_h r \<and> rect_y r + rect_h r \<le> MAP_H - 1)"

definition room_cells :: "Rect \<Rightarrow> cell set" where
  "room_cells r =
     {c. rect_x r \<le> fst c \<and> fst c < rect_x r + rect_w r \<and>
         rect_y r \<le> snd c \<and> snd c < rect_y r + rect_h r}"

definition room_inv :: "Grid \<Rightarrow> Rect list \<Rightarrow> bool" where
  "room_inv m rs = (wf_grid m \<and> (\<forall>r \<in> set rs. room_ok r \<and> (\<forall>c \<in> room_cells r. is_floor m c)))"

definition enemy_cell :: "Enemy \<Rightarrow> cell" where
  "enemy_cell e = (enemy_x e, enemy_y e)"

definition item_cell :: "Item \<Rightarrow> cell" where
  "item_cell it = (item_x it, item_y it)"

definition enemy_inv :: "Grid \<Rightarrow> cell \<Rightarrow> Enemy list \<Rightarrow> bool" where
  "enemy_inv m pl es =
     ((\<forall>e \<in> set es. alive e \<and> is_floor m (enemy_cell e) \<and> enemy_cell e \<noteq> pl) \<and>
      distinct (map enemy_cell es))"

definition item_inv :: "Grid \<Rightarrow> cell \<Rightarrow> Enemy list \<Rightarrow> Item list \<Rightarrow> bool" where
  "item_inv m pl es its =
     ((\<forall>it \<in> set its. is_floor m (item_cell it) \<and> item_cell it \<noteq> pl \<and>
                       item_cell it \<notin> set (map enemy_cell es)) \<and>
      distinct (map item_cell its))"

text \<open>
  The live enemies stand inside the grid, off the player's cell and on pairwise distinct
  cells; and what a plan of moves owes to it.
\<close>

definition agents_ok :: "Session \<Rightarrow> bool" where
  "agents_ok s =
     ((\<forall>i < length (enemies s). alive (enemies s ! i) \<longrightarrow>
          in_grid (enemy_x (enemies s ! i)) (enemy_y (enemies s ! i)) \<and>
          enemy_cell (enemies s ! i) \<noteq> (playerX s, playerY s)) \<and>
      (\<forall>i < length (enemies s). \<forall>j < length (enemies s).
          i \<noteq> j \<and> alive (enemies s ! i) \<and> alive (enemies s ! j) \<longrightarrow>
          enemy_cell (enemies s ! i) \<noteq> enemy_cell (enemies s ! j)))"

definition plan_ok :: "Session \<Rightarrow> cell list \<Rightarrow> bool" where
  "plan_ok s np =
     (length np = length (enemies s) \<and>
      (\<forall>i < length (enemies s). alive (enemies s ! i) \<longrightarrow>
          in_grid (fst (np ! i)) (snd (np ! i)) \<and>
          (np ! i = (playerX s, playerY s) \<or> np ! i = enemy_cell (enemies s ! i) \<or>
           (\<forall>j < length (enemies s). j \<noteq> i \<and> alive (enemies s ! j) \<longrightarrow>
               np ! i \<noteq> enemy_cell (enemies s ! j)))))"

text \<open>
  The state of the resolution loop when enemy \<open>k\<close> is reached, in a turn that started
  in session \<open>s\<close>.
\<close>

definition resolve_prefix :: "Session \<Rightarrow> cell list \<Rightarrow> nat \<Rightarrow> Session \<times> cell set" where
  "resolve_prefix s nextPos k = fold (resolve_agent nextPos) [0 ..< k] (s, {})"

definition resolve_frame :: "Session \<Rightarrow> nat \<Rightarrow> Session \<times> cell set \<Rightarrow> bool" where
  "resolve_frame s k sr =
     (case sr of (sk, R) \<Rightarrow>
        mapG sk = mapG s \<and> playerX sk = playerX s \<and> playerY sk = playerY s \<and> diff sk = diff s \<and>
        length (enemies sk) = length (enemies s) \<and>
        (\<forall>j < length (enemies s). alive (enemies sk ! j) = alive (enemies s ! j)) \<and>
        (\<forall>j < length (enemies s). k \<le> j \<longrightarrow> enemies sk ! j = enemies s ! j) \<and>
        R = {c. \<exists>j < k. j < length (enemies s) \<and> alive (enemies sk ! j) \<and> c = enemy_cell (enemies sk ! j)})"


section \<open>The player's action\<close>

lemma enemy_index_from_cases:
  "(enemy_index_from es x y k = - 1 \<and> k \<ge> 0 \<longrightarrow> (\<forall>i < length es. \<not> (alive (es ! i) \<and> enemy_x (es ! i) = x \<and> enemy_y (es ! i) = y)))
   \<and> (enemy_index_from es x y k \<noteq> - 1 \<longrightarrow>
        (\<exists>i < length es. enemy_index_from es x y k = k + int i \<and> alive (es ! i) \<and> enemy_x (es ! i) = x \<and> enemy_y (es ! i) = y
          \<and> (\<forall>j < i. \<not> (alive (es ! j) \<and> enemy_x (es ! j) = x \<and> enemy_y (es ! j) = y))))"
proof (induction es arbitrary: k)
  case Nil
  then show ?case by simp
next
  case (Cons e es)
  show ?case
  proof (cases "alive e \<and> enemy_x e = x \<and> enemy_y e = y")
    case True
    then show ?thesis by auto
  next
    case False
    have r: "enemy_index_from (e # es) x y k = enemy_index_from es x y (k + 1)"
      using False by auto
    show ?thesis
    proof (intro conjI impI)
      assume "enemy_index_from (e # es) x y k = - 1 \<and> 0 \<le> k"
      with r Cons.IH [of "k + 1"] have "\<forall>i<length es. \<not> (alive (es ! i) \<and> enemy_x (es ! i) = x \<and> enemy_y (es ! i) = y)"
        by simp
      with False show "\<forall>i<length (e # es). \<not> (alive ((e # es) ! i) \<and> enemy_x ((e # es) ! i) = x \<and> enemy_y ((e # es) ! i) = y)"
        by (auto simp: nth_Cons split: nat.splits)
    next
      assume "enemy_index_from (e # es) x y k \<noteq> - 1"
      with r Cons.IH [of "k + 1"] obtain i where i: "i < length es" "enemy_index_from es x y (k + 1) = k + 1 + int i"
        "alive (es ! i)" "enemy_x (es ! i) = x" "enemy_y (es ! i) = y"
        "\<forall>j < i. \<not> (alive (es ! j) \<and> enemy_x (es ! j) = x \<and> enemy_y (es ! j) = y)"
        by auto
      show "\<exists>i<length (e # es). enemy_index_from (e # es) x y k = k + int i \<and> alive ((e # es) ! i) \<and> enemy_x ((e # es) ! i) = x \<and> enemy_y ((e # es) ! i) = y
          \<and> (\<forall>j < i. \<not> (alive ((e # es) ! j) \<and> enemy_x ((e # es) ! j) = x \<and> enemy_y ((e # es) ! j) = y))"
        apply (rule exI [of _ "Suc i"])
        using i r False by (auto simp: nth_Cons split: nat.splits)
    qed
  qed
qed

lemma enemy_index_at_none:
  "enemy_index_at es x y = - 1 \<Longrightarrow> i < length es \<Longrightarrow> \<not> (alive (es ! i) \<and> enemy_x (es ! i) = x \<and> enemy_y (es ! i) = y)"
  using enemy_index_from_cases [of es x y 0] by (simp add: enemy_index_at_def)

lemma enemy_index_at_some:
  "enemy_index_at es x y \<noteq> - 1 \<Longrightarrow>
   \<exists>i < length es. enemy_index_at es x y = int i \<and> alive (es ! i) \<and> enemy_x (es ! i) = x \<and> enemy_y (es ! i) = y
      \<and> (\<forall>j < i. \<not> (alive (es ! j) \<and> enemy_x (es ! j) = x \<and> enemy_y (es ! j) = y))"
  using enemy_index_from_cases [of es x y 0] by (simp add: enemy_index_at_def)

lemma item_index_from_cases:
  "(item_index_from its x y k = - 1 \<and> k \<ge> 0 \<longrightarrow> (\<forall>i < length its. \<not> (item_x (its ! i) = x \<and> item_y (its ! i) = y)))
   \<and> (item_index_from its x y k \<noteq> - 1 \<longrightarrow>
        (\<exists>i < length its. item_index_from its x y k = k + int i \<and> item_x (its ! i) = x \<and> item_y (its ! i) = y
          \<and> (\<forall>j < i. \<not> (item_x (its ! j) = x \<and> item_y (its ! j) = y))))"
proof (induction its arbitrary: k)
  case Nil
  then show ?case by simp
next
  case (Cons e es)
  show ?case
  proof (cases "item_x e = x \<and> item_y e = y")
    case True
    then show ?thesis by auto
  next
    case False
    have r: "item_index_from (e # es) x y k = item_index_from es x y (k + 1)"
      using False by auto
    show ?thesis
    proof (intro conjI impI)
      assume "item_index_from (e # es) x y k = - 1 \<and> 0 \<le> k"
      with r Cons.IH [of "k + 1"] have "\<forall>i<length es. \<not> (item_x (es ! i) = x \<and> item_y (es ! i) = y)"
        by simp
      with False show "\<forall>i<length (e # es). \<not> (item_x ((e # es) ! i) = x \<and> item_y ((e # es) ! i) = y)"
        by (auto simp: nth_Cons split: nat.splits)
    next
      assume "item_index_from (e # es) x y k \<noteq> - 1"
      with r Cons.IH [of "k + 1"] obtain i where i: "i < length es" "item_index_from es x y (k + 1) = k + 1 + int i"
        "item_x (es ! i) = x" "item_y (es ! i) = y"
        "\<forall>j < i. \<not> (item_x (es ! j) = x \<and> item_y (es ! j) = y)"
        by auto
      show "\<exists>i<length (e # es). item_index_from (e # es) x y k = k + int i \<and> item_x ((e # es) ! i) = x \<and> item_y ((e # es) ! i) = y
          \<and> (\<forall>j < i. \<not> (item_x ((e # es) ! j) = x \<and> item_y ((e # es) ! j) = y))"
        apply (rule exI [of _ "Suc i"])
        using i r False by (auto simp: nth_Cons split: nat.splits)
    qed
  qed
qed

lemma item_index_at_none:
  "item_index_at its x y = - 1 \<Longrightarrow> i < length its \<Longrightarrow> \<not> (item_x (its ! i) = x \<and> item_y (its ! i) = y)"
  using item_index_from_cases [of its x y 0] by (simp add: item_index_at_def)

lemma item_index_at_some:
  "item_index_at its x y \<noteq> - 1 \<Longrightarrow>
   \<exists>i < length its. item_index_at its x y = int i \<and> item_x (its ! i) = x \<and> item_y (its ! i) = y
      \<and> (\<forall>j < i. \<not> (item_x (its ! j) = x \<and> item_y (its ! j) = y))"
  using item_index_from_cases [of its x y 0] by (simp add: item_index_at_def)

lemma rnd_range: "a \<le> b \<Longrightarrow> a \<le> fst (rnd a b g) \<and> fst (rnd a b g) \<le> b"
proof -
  assume ab: "a \<le> b"
  then have pos: "0 < nat (b - a + 1)" by simp
  have "g 0 mod nat (b - a + 1) < nat (b - a + 1)"
    using pos by (rule mod_less_divisor)
  then have "int (g 0 mod nat (b - a + 1)) < b - a + 1"
    using ab by linarith
  then show ?thesis by (simp add: rnd_def)
qed


lemma erase_at_nth:
  "k < length xs \<Longrightarrow> j < length xs - 1 \<Longrightarrow> erase_at xs k ! j = (if j < k then xs ! j else xs ! Suc j)"
  by (auto simp: erase_at_def nth_append min_def)

lemma erase_at_length: "k < length xs \<Longrightarrow> length (erase_at xs k) = length xs - 1"
  by (auto simp: erase_at_def)


lemma demo_dest_d: "destination demo_session CHR ''d'' = Some (3, 2)"
  by (simp add: destination_def demo_session_def)

lemma demo_dest_s: "destination demo_session CHR ''s'' = Some (2, 3)"
  by (simp add: destination_def demo_session_def)

lemma demo_cell_32: "cell_at (mapG demo_session) 3 2 = CHR ''.''"
  by (simp add: demo_session_def demo_map_def cell_at_def)

lemma demo_cell_23: "cell_at (mapG demo_session) 2 3 = CHR ''.''"
  by (simp add: demo_session_def demo_map_def cell_at_def)


section \<open>The search of the pathfinder\<close>

lemma blocked_in_grid: "\<not> blocked m t occ c \<Longrightarrow> in_grid (fst c) (snd c)"
  by (auto simp: blocked_def split: if_splits)

lemma visit_cases:
  "visit m t occ cur (q, vis, par) d =
     (let n = (fst cur + fst d, snd cur + snd d) in
      if \<not> vis n \<and> \<not> blocked m t occ n then (q @ [n], vis(n := True), par(n := cur))
      else (q, vis, par))"
  using blocked_in_grid [of m t occ "(fst cur + fst d, snd cur + snd d)"]
  by (auto simp: visit_def Let_def)

lemma foldl_visit:
  "distinct ds \<Longrightarrow>
   foldl (visit m t occ cur) (q, vis, par) ds =
     (q @ fresh m t occ vis cur ds,
      (\<lambda>c. vis c \<or> c \<in> set (fresh m t occ vis cur ds)),
      (\<lambda>c. if c \<in> set (fresh m t occ vis cur ds) then cur else par c))"
proof (induction ds arbitrary: q vis par)
  case Nil
  then show ?case by (simp add: fresh_def nbrs_def)
next
  case (Cons d ds)
  let ?n = "(fst cur + fst d, snd cur + snd d)"
  have notin: "?n \<notin> set (nbrs cur ds)"
    using Cons.prems by (auto simp: nbrs_def)
  from Cons.prems have dist: "distinct ds" by simp
  show ?case
  proof (cases "\<not> vis ?n \<and> \<not> blocked m t occ ?n")
    case True
    have fr: "fresh m t occ (vis(?n := True)) cur ds = fresh m t occ vis cur ds"
      unfolding fresh_def using notin by (intro filter_cong) auto
    have fr2: "fresh m t occ vis cur (d # ds) = ?n # fresh m t occ vis cur ds"
      using True by (simp add: fresh_def nbrs_def)
    have v: "visit m t occ cur (q, vis, par) d = (q @ [?n], vis(?n := True), par(?n := cur))"
      using True by (simp add: visit_cases Let_def)
    show ?thesis
      unfolding foldl_Cons v Cons.IH [OF dist] fr fr2
      by (auto simp: fun_eq_iff)
  next
    case False
    have fr2: "fresh m t occ vis cur (d # ds) = fresh m t occ vis cur ds"
      using False by (auto simp: fresh_def nbrs_def)
    have v: "visit m t occ cur (q, vis, par) d = (q, vis, par)"
      using False by (auto simp: visit_cases Let_def)
    show ?thesis
      unfolding foldl_Cons v Cons.IH [OF dist] fr2 by simp
  qed
qed

lemma distinct_dirs: "distinct dirs"
  by (simp add: dirs_def)

lemma step_ok_iff:
  "step_ok m t occ c c' \<longleftrightarrow> c' \<in> set (nbrs c dirs) \<and> \<not> blocked m t occ c'"
  by (auto simp: step_ok_def nbrs_def list_ex_iff)

lemma fresh_iff:
  "c' \<in> set (fresh m t occ vis cur dirs) \<longleftrightarrow> \<not> vis c' \<and> step_ok m t occ cur c'"
  by (auto simp: fresh_def step_ok_iff)

lemma bfs_invD:
  assumes "bfs_inv m s t occ dl (q, vis, par)"
  shows "vis s" and "dl s = 0"
    and "\<And>c. vis c \<Longrightarrow> c \<noteq> s \<Longrightarrow> vis (par c) \<and> step_ok m t occ (par c) c \<and> dl c = Suc (dl (par c))"
    and "\<And>c. c \<in> set q \<Longrightarrow> vis c"
    and "sorted (map dl q)"
    and "\<And>c. vis c \<Longrightarrow> q \<noteq> [] \<Longrightarrow> dl c \<le> Suc (dl (hd q))"
    and "\<And>c. vis c \<Longrightarrow> c \<notin> set q \<Longrightarrow> c \<noteq> t"
    and "\<And>c c'. vis c \<Longrightarrow> c \<notin> set q \<Longrightarrow> step_ok m t occ c c' \<Longrightarrow> vis c' \<and> dl c' \<le> Suc (dl c)"
  using assms by (auto simp: bfs_inv_def)

lemma bfs_inv_init:
  "bfs_inv m s t occ (\<lambda>c. 0) ([s], (\<lambda>c. False)(s := True), par)"
  by (simp add: bfs_inv_def)

lemma bfs_inv_step:
  assumes inv: "bfs_inv m s t occ dl (cur # q, vis, par)" and ne: "cur \<noteq> t"
  shows "\<exists>dl'. bfs_inv m s t occ dl' (foldl (visit m t occ cur) (q, vis, par) dirs)"
proof -
  define F where "F = fresh m t occ vis cur dirs"
  define dl' where "dl' = (\<lambda>c. if c \<in> set F then Suc (dl cur) else dl c)"
  define vis' where "vis' = (\<lambda>c. vis c \<or> c \<in> set F)"
  define par' where "par' = (\<lambda>c. if c \<in> set F then cur else par c)"
  have fold: "foldl (visit m t occ cur) (q, vis, par) dirs = (q @ F, vis', par')"
    unfolding F_def vis'_def par'_def by (rule foldl_visit [OF distinct_dirs])
  have F: "\<And>c. c \<in> set F \<longleftrightarrow> \<not> vis c \<and> step_ok m t occ cur c"
    unfolding F_def by (rule fresh_iff)
  from inv have i1: "vis s" "dl s = 0"
    and i2: "\<And>c. vis c \<Longrightarrow> c \<noteq> s \<Longrightarrow> vis (par c) \<and> step_ok m t occ (par c) c \<and> dl c = Suc (dl (par c))"
    and i3: "vis cur" "\<And>c. c \<in> set q \<Longrightarrow> vis c"
    and i4: "sorted (map dl q)" "\<And>c. c \<in> set q \<Longrightarrow> dl cur \<le> dl c"
    and i5: "\<And>c. vis c \<Longrightarrow> dl c \<le> Suc (dl cur)"
    and i6: "\<And>c c'. vis c \<Longrightarrow> c \<noteq> cur \<Longrightarrow> c \<notin> set q \<Longrightarrow>
               c \<noteq> t \<and> (step_ok m t occ c c' \<longrightarrow> vis c' \<and> dl c' \<le> Suc (dl c))"
    by (auto simp: bfs_inv_def)
  have old: "\<And>c. vis c \<Longrightarrow> c \<notin> set F \<and> dl' c = dl c \<and> par' c = par c \<and> vis' c"
    by (simp add: F dl'_def par'_def vis'_def)
  have new: "\<And>c. c \<in> set F \<Longrightarrow> dl' c = Suc (dl cur) \<and> par' c = cur \<and> vis' c \<and> step_ok m t occ cur c \<and> \<not> vis c"
    by (simp add: F dl'_def par'_def vis'_def)
  have split: "\<And>c. vis' c \<Longrightarrow> vis c \<or> c \<in> set F"
    by (simp add: vis'_def)
  have a: "vis' s \<and> dl' s = 0"
    using old [OF i1(1)] i1 by simp
  have c: "vis' (par' c) \<and> step_ok m t occ (par' c) c \<and> dl' c = Suc (dl' (par' c))"
    if "vis' c" "c \<noteq> s" for c
  proof (cases "c \<in> set F")
    case True
    with new [OF True] old [OF i3(1)] show ?thesis by simp
  next
    case False
    with split [OF that(1)] have v: "vis c" by simp
    from i2 [OF v that(2)] old [OF v] old [of "par c"] show ?thesis by simp
  qed
  have d: "\<forall>c \<in> set (q @ F). vis' c"
    using i3(2) old new by auto
  have mq: "map dl' q = map dl q"
    using i3(2) old by simp
  have e: "sorted (map dl' (q @ F))"
  proof -
    have "sorted (map dl' F)"
      using new by (simp add: sorted_wrt_iff_nth_less sorted_wrt_map)
    moreover have "\<forall>x \<in> set q. \<forall>y \<in> set F. dl' x \<le> dl' y"
      using i3(2) i5 old new by auto
    moreover have "sorted (map dl' q)"
      using i4(1) by (simp only: mq)
    ultimately show ?thesis
      by (simp add: sorted_append)
  qed
  have hd_ge: "dl cur \<le> dl' (hd (q @ F))" if "q @ F \<noteq> []"
  proof (cases q)
    case Nil
    with that have "hd (q @ F) \<in> set F" by simp
    from new [OF this] show ?thesis by simp
  next
    case (Cons x xs)
    then have "hd (q @ F) \<in> set q" by simp
    with i4(2) i3(2) old show ?thesis by metis
  qed
  have f: "dl' c \<le> Suc (dl' (hd (q @ F)))" if "vis' c" "q @ F \<noteq> []" for c
  proof -
    have "dl' c \<le> Suc (dl cur)"
      using split [OF that(1)] old [of c] new [of c] i5 [of c] by auto
    with hd_ge [OF that(2)] show ?thesis by simp
  qed
  have g: "c \<noteq> t \<and> (\<forall>c'. step_ok m t occ c c' \<longrightarrow> vis' c' \<and> dl' c' \<le> Suc (dl' c))"
    if "vis' c" "c \<notin> set (q @ F)" for c
  proof -
    from that split [of c] have v: "vis c" and nq: "c \<notin> set q" by auto
    show ?thesis
    proof (cases "c = cur")
      case True
      have "vis' c' \<and> dl' c' \<le> Suc (dl' c)" if st: "step_ok m t occ c c'" for c'
      proof (cases "vis c'")
        case True
        with i5 [OF True] old [OF True] old [OF i3(1)] \<open>c = cur\<close> show ?thesis by simp
      next
        case False
        with st \<open>c = cur\<close> have "c' \<in> set F" by (simp add: F)
        from new [OF this] old [OF i3(1)] \<open>c = cur\<close> show ?thesis by simp
      qed
      with True ne show ?thesis by simp
    next
      case False
      have "vis' c' \<and> dl' c' \<le> Suc (dl' c)" if st: "step_ok m t occ c c'" for c'
      proof -
        from i6 [OF v False nq, of c'] st have "vis c'" "dl c' \<le> Suc (dl c)" by auto
        with old [of c'] old [OF v] show ?thesis by simp
      qed
      with i6 [OF v False nq] show ?thesis by simp
    qed
  qed
  have "bfs_inv m s t occ dl' (q @ F, vis', par')"
    unfolding bfs_inv_def using a c d e f g by (simp only: prod.case) blast
  with fold show ?thesis by auto
qed

lemma bfs_loop_inv:
  "bfs_inv m s t occ dl st \<Longrightarrow>
   \<exists>dl' q' vis'. bfs_inv m s t occ dl' (q', vis', snd (bfs_loop m t occ st)) \<and>
      (if fst (bfs_loop m t occ st) then q' \<noteq> [] \<and> hd q' = t else q' = [])"
proof (induction m t occ st arbitrary: dl rule: bfs_loop.induct)
  case (1 m t occ vis parent)
  then show ?case by auto
next
  case (2 m t occ cur q vis parent)
  show ?case
  proof (cases "fst cur = fst t \<and> snd cur = snd t")
    case True
    then have "cur = t" by (simp add: prod_eq_iff)
    with "2.prems" True show ?thesis
      by (auto intro!: exI [of _ dl] exI [of _ "cur # q"] exI [of _ vis])
  next
    case False
    then have ne: "cur \<noteq> t" by auto
    from bfs_inv_step [OF "2.prems" ne] obtain dl1 where
      "bfs_inv m s t occ dl1 (foldl (visit m t occ cur) (q, vis, parent) dirs)" by blast
    from "2.IH" [OF False this]
    have "\<exists>dl' q' vis'. bfs_inv m s t occ dl'
            (q', vis', snd (bfs_loop m t occ (foldl (visit m t occ cur) (q, vis, parent) dirs))) \<and>
          (if fst (bfs_loop m t occ (foldl (visit m t occ cur) (q, vis, parent) dirs))
           then q' \<noteq> [] \<and> hd q' = t else q' = [])" .
    moreover have "bfs_loop m t occ (cur # q, vis, parent) =
        bfs_loop m t occ (foldl (visit m t occ cur) (q, vis, parent) dirs)"
      using False by auto
    ultimately show ?thesis by simp
  qed
qed

declare bfs_loop.simps [simp del]

lemma is_path_append:
  "p \<noteq> [] \<Longrightarrow> is_path m t occ (p @ [c]) \<longleftrightarrow> is_path m t occ p \<and> step_ok m t occ (last p) c"
  by (induction m t occ p rule: is_path.induct) auto

lemma parent_chain:
  assumes inv: "bfs_inv m s t occ dl (q, vis, par)"
  shows "vis c \<Longrightarrow> dl c = n \<Longrightarrow>
     \<exists>p. is_path m t occ p \<and> hd p = s \<and> last p = c \<and> length p = Suc n \<and>
         (c \<noteq> s \<longrightarrow> backtrack par s c = Some (p ! 1))"
proof (induction n arbitrary: c)
  case 0
  from inv have i2: "\<And>c. vis c \<Longrightarrow> c \<noteq> s \<Longrightarrow> dl c = Suc (dl (par c))"
    by (auto simp: bfs_inv_def)
  from i2 [OF "0.prems"(1)] "0.prems"(2) have "c = s" by auto
  then show ?case by (intro exI [of _ "[s]"]) simp
next
  case (Suc n)
  from inv have i1: "dl s = 0"
    and i2: "\<And>c. vis c \<Longrightarrow> c \<noteq> s \<Longrightarrow> vis (par c) \<and> step_ok m t occ (par c) c \<and> dl c = Suc (dl (par c))"
    by (auto simp: bfs_inv_def)
  from Suc.prems i1 have cs: "c \<noteq> s" by auto
  from i2 [OF Suc.prems(1) cs] Suc.prems(2)
  have pv: "vis (par c)" and st: "step_ok m t occ (par c) c" and pd: "dl (par c) = n" by auto
  from Suc.IH [OF pv pd] obtain p where p: "is_path m t occ p" "hd p = s" "last p = par c"
    "length p = Suc n" "par c \<noteq> s \<longrightarrow> backtrack par s (par c) = Some (p ! 1)" by blast
  from p(4) have pne: "p \<noteq> []" by auto
  have "backtrack par s c = Some ((p @ [c]) ! 1)"
  proof (cases "par c = s")
    case True
    with pd i1 have "n = 0" by simp
    with p(4) have "(p @ [c]) ! 1 = c" by (simp add: nth_append)
    moreover have "backtrack par s c = Some c"
      using True by (subst backtrack.simps) simp
    ultimately show ?thesis by simp
  next
    case False
    then have b: "backtrack par s c = backtrack par s (par c)"
      by (subst backtrack.simps) (auto simp: prod_eq_iff)
    from False i2 [OF pv] pd have "n \<noteq> 0" by auto
    with p(4) have "(p @ [c]) ! 1 = p ! 1" by (simp add: nth_append)
    with b p(5) False show ?thesis by simp
  qed
  with p pne st cs show ?case
    by (intro exI [of _ "p @ [c]"]) (simp add: is_path_append)
qed

lemma sorted_hd_le: "sorted (map f q) \<Longrightarrow> c \<in> set q \<Longrightarrow> f (hd q) \<le> f c"
  by (cases q) auto

lemma within_step:
  assumes inv: "bfs_inv m s t occ dl (q, vis, par)"
    and w: "within dl (q, vis, par) k c" and st: "step_ok m t occ c c'"
  shows "within dl (q, vis, par) (Suc k) c'"
proof (cases "q \<noteq> [] \<and> dl (hd q) \<le> k")
  case True
  then show ?thesis by (simp add: within_def)
next
  case False
  with w have v: "vis c" and d: "dl c \<le> k" by (auto simp: within_def)
  from inv have srt: "sorted (map dl q)"
    and i6: "\<And>c c'. vis c \<Longrightarrow> c \<notin> set q \<Longrightarrow> step_ok m t occ c c' \<Longrightarrow> vis c' \<and> dl c' \<le> Suc (dl c)"
    by (auto simp: bfs_inv_def)
  have "c \<notin> set q"
  proof
    assume "c \<in> set q"
    with sorted_hd_le [OF srt this] d False show False by auto
  qed
  from i6 [OF v this st] d show ?thesis by (simp add: within_def)
qed

lemma within_path:
  assumes inv: "bfs_inv m s t occ dl (q, vis, par)"
  shows "is_path m t occ p \<Longrightarrow> within dl (q, vis, par) k (hd p) \<Longrightarrow>
     within dl (q, vis, par) (k + length p - 1) (last p)"
proof (induction p arbitrary: k)
  case Nil
  then show ?case by simp
next
  case (Cons c cs)
  show ?case
  proof (cases cs)
    case Nil
    with Cons.prems show ?thesis by simp
  next
    case (Cons c' cs')
    with Cons.prems have st: "step_ok m t occ c c'" and rest: "is_path m t occ cs" by auto
    from Cons.prems(2) have "within dl (q, vis, par) k c" by simp
    from within_step [OF inv this st] Cons have "within dl (q, vis, par) (Suc k) (hd cs)" by simp
    from Cons.IH [OF rest this] Cons show ?thesis by simp
  qed
qed

lemma search_found:
  assumes found: "fst (bfs_loop m t occ ([s], (\<lambda>c. False)(s := True), par0))" and ne: "s \<noteq> t"
  shows "\<exists>p. path_from_to m occ s t p \<and> 2 \<le> length p \<and>
      backtrack (snd (bfs_loop m t occ ([s], (\<lambda>c. False)(s := True), par0))) s t = Some (p ! 1) \<and>
      (\<forall>p'. path_from_to m occ s t p' \<longrightarrow> length p \<le> length p')"
proof -
  let ?par = "snd (bfs_loop m t occ ([s], (\<lambda>c. False)(s := True), par0))"
  from bfs_loop_inv [OF bfs_inv_init [of m s t occ par0]] found
  obtain dl q vis where inv: "bfs_inv m s t occ dl (q, vis, ?par)" and q: "q \<noteq> []" "hd q = t"
    by auto
  from inv have qv: "\<forall>c \<in> set q. vis c" and s0: "vis s" "dl s = 0"
    by (auto simp: bfs_inv_def)
  from q qv have vt: "vis t" by (cases q) auto
  from parent_chain [OF inv vt refl] ne obtain p where p: "is_path m t occ p" "hd p = s" "last p = t"
    "length p = Suc (dl t)" "backtrack ?par s t = Some (p ! 1)" by auto
  from bfs_invD(3) [OF inv vt] ne have "dl t \<noteq> 0" by auto
  with p(4) have len: "2 \<le> length p" by simp
  have "length p \<le> length p'" if pp: "path_from_to m occ s t p'" for p'
  proof -
    from pp have ip: "is_path m t occ p'" and h: "hd p' = s" and l: "last p' = t"
      by (auto simp: path_from_to_def)
    from s0 h have "within dl (q, vis, ?par) 0 (hd p')" by (simp add: within_def)
    from within_path [OF inv ip this] l q have "dl t \<le> length p' - 1"
      by (auto simp: within_def)
    moreover from ip have "p' \<noteq> []" by auto
    ultimately show ?thesis using p(4) by (cases p') auto
  qed
  with p len show ?thesis by (auto simp: path_from_to_def)
qed

lemma search_not_found:
  assumes nf: "\<not> fst (bfs_loop m t occ ([s], (\<lambda>c. False)(s := True), par0))"
  shows "\<not> path_from_to m occ s t p'"
proof
  assume pp: "path_from_to m occ s t p'"
  let ?par = "snd (bfs_loop m t occ ([s], (\<lambda>c. False)(s := True), par0))"
  from bfs_loop_inv [OF bfs_inv_init [of m s t occ par0]] nf
  obtain dl vis where inv: "bfs_inv m s t occ dl ([], vis, ?par)"
    by auto
  from pp have ip: "is_path m t occ p'" and h: "hd p' = s" and l: "last p' = t"
    by (auto simp: path_from_to_def)
  from inv h have "within dl ([], vis, ?par) 0 (hd p')" by (simp add: within_def bfs_inv_def)
  from within_path [OF inv ip this] l have "vis t" by (simp add: within_def)
  from bfs_invD(7) [OF inv this] show False by simp
qed

lemma bfs_next_step_same: "bfs_next_step m s s occ = Some s"
  by (simp add: bfs_next_step_def)

lemma bfs_next_step_path:
  assumes ne: "s \<noteq> t" and g: "in_grid (fst s) (snd s)" and ex: "path_from_to m occ s t p0"
  shows "\<exists>c rest. bfs_next_step m s t occ = Some c \<and> path_from_to m occ s t (s # c # rest) \<and>
      (\<forall>p'. path_from_to m occ s t p' \<longrightarrow> length (s # c # rest) \<le> length p')"
proof -
  let ?r = "bfs_loop m t occ ([s], (\<lambda>c. False)(s := True), (\<lambda>c. (0, 0)))"
  have found: "fst ?r"
    using search_not_found [of m t occ s "\<lambda>c. (0, 0)" p0] ex by blast
  from search_found [OF found ne] obtain p where p: "path_from_to m occ s t p" "2 \<le> length p"
    "backtrack (snd ?r) s t = Some (p ! 1)"
    "\<forall>p'. path_from_to m occ s t p' \<longrightarrow> length p \<le> length p'" by blast
  from p(2) obtain a c rest where pe: "p = a # c # rest"
    by (cases p; cases "tl p") auto
  with p(1) have a: "a = s" by (simp add: path_from_to_def)
  from ne have nes: "\<not> (fst s = fst t \<and> snd s = snd t)" by (auto simp: prod_eq_iff)
  have "bfs_next_step m s t occ = Some c"
    using nes g found p(3) pe by (auto simp: bfs_next_step_def case_prod_beta)
  with p pe a show ?thesis by blast
qed

lemma bfs_next_step_nopath:
  assumes ne: "s \<noteq> t" and g: "in_grid (fst s) (snd s)" and no: "\<forall>p. \<not> path_from_to m occ s t p"
  shows "bfs_next_step m s t occ = Some (greedy_step m s t occ)"
proof -
  let ?r = "bfs_loop m t occ ([s], (\<lambda>c. False)(s := True), (\<lambda>c. (0, 0)))"
  have "\<not> fst ?r"
  proof
    assume "fst ?r"
    from search_found [OF this ne] no show False by blast
  qed
  moreover from ne have "\<not> (fst s = fst t \<and> snd s = snd t)" by (auto simp: prod_eq_iff)
  ultimately show ?thesis using g by (auto simp: bfs_next_step_def case_prod_beta)
qed

lemma bfs_next_step_total:
  assumes g: "in_grid (fst s) (snd s)"
  shows "\<exists>c. bfs_next_step m s t occ = Some c"
proof (cases "s = t")
  case True
  then show ?thesis by (simp add: bfs_next_step_same)
next
  case False
  show ?thesis
  proof (cases "\<exists>p. path_from_to m occ s t p")
    case True
    then obtain p0 where "path_from_to m occ s t p0" by blast
    from bfs_next_step_path [OF False g this] show ?thesis by blast
  next
    case False
    with bfs_next_step_nopath [OF \<open>s \<noteq> t\<close> g] show ?thesis by blast
  qed
qed

lemma open_grid_cell: "open_grid m \<Longrightarrow> in_grid x y \<Longrightarrow> cell_at m x y = CHR ''.''"
  by (auto simp: open_grid_def in_grid_def list_all_iff)

lemma open_not_blocked: "open_grid m \<Longrightarrow> in_grid (fst c) (snd c) \<Longrightarrow> \<not> blocked m t [] c"
  by (simp add: blocked_def open_grid_cell)

lemma step_neighbour:
  "step_ok m t occ c c' \<Longrightarrow>
   c' = (fst c + 1, snd c) \<or> c' = (fst c - 1, snd c) \<or> c' = (fst c, snd c + 1) \<or> c' = (fst c, snd c - 1)"
  by (auto simp: step_ok_def dirs_def)

lemma step_manhattan: "step_ok m t occ c c' \<Longrightarrow> manhattan c x \<le> manhattan c' x + 1"
  using step_neighbour [of m t occ c c'] by (auto simp: manhattan_def)

lemma path_manhattan:
  "is_path m t occ p \<Longrightarrow> manhattan (hd p) (last p) \<le> int (length p) - 1"
proof (induction m t occ p rule: is_path.induct)
  case (1 m t occ)
  then show ?case by simp
next
  case (2 m t occ c)
  then show ?case by (simp add: manhattan_def)
next
  case (3 m t occ c c' cs)
  then have "manhattan c' (last (c' # cs)) \<le> int (length (c' # cs)) - 1" by simp
  moreover from "3.prems" have "step_ok m t occ c c'" by simp
  from step_manhattan [OF this, of "last (c' # cs)"]
  have "manhattan c (last (c' # cs)) \<le> manhattan c' (last (c' # cs)) + 1" .
  ultimately show ?case by simp
qed

lemma manhattan_path:
  "open_grid m \<Longrightarrow> in_grid (fst s) (snd s) \<Longrightarrow> in_grid (fst t) (snd t) \<Longrightarrow>
   manhattan s t = int n \<Longrightarrow> \<exists>p. path_from_to m [] s t p \<and> length p = Suc n"
proof (induction n arbitrary: s)
  case 0
  then have "s = t" by (auto simp: manhattan_def prod_eq_iff)
  then show ?case by (intro exI [of _ "[s]"]) (simp add: path_from_to_def)
next
  case (Suc n)
  define c where "c =
     (if fst s < fst t then (fst s + 1, snd s) else if fst t < fst s then (fst s - 1, snd s)
      else if snd s < snd t then (fst s, snd s + 1) else (fst s, snd s - 1))"
  from Suc.prems(4) have ne: "fst s \<noteq> fst t \<or> snd s \<noteq> snd t"
    by (auto simp: manhattan_def)
  have cg: "in_grid (fst c) (snd c)"
    using Suc.prems(2,3) ne by (auto simp: c_def in_grid_def)
  have cm: "manhattan c t = int n"
    using Suc.prems(4) ne by (auto simp: c_def manhattan_def)
  have st: "step_ok m t [] s c"
    using open_not_blocked [OF Suc.prems(1) cg] by (auto simp: step_ok_def dirs_def c_def)
  from Suc.IH [OF Suc.prems(1) cg Suc.prems(3) cm] obtain p where
    p: "path_from_to m [] c t p" "length p = Suc n" by blast
  then obtain rest where pe: "p = c # rest"
    by (cases p) (auto simp: path_from_to_def)
  with p st have "path_from_to m [] s t (s # p)"
    by (auto simp: path_from_to_def)
  with p(2) show ?case by (intro exI [of _ "s # p"]) simp
qed

lemma bfs_next_step_open:
  assumes og: "open_grid m" and gs: "in_grid (fst s) (snd s)" and gt: "in_grid (fst t) (snd t)"
    and ne: "s \<noteq> t"
  shows "\<exists>c. bfs_next_step m s t [] = Some c \<and> manhattan c t < manhattan s t"
proof -
  have "0 \<le> manhattan s t" by (simp add: manhattan_def)
  then obtain n where n: "manhattan s t = int n" using nonneg_int_cases by blast
  from manhattan_path [OF og gs gt n] obtain p0 where p0: "path_from_to m [] s t p0" "length p0 = Suc n"
    by blast
  from bfs_next_step_path [OF ne gs p0(1)] obtain c rest where
    c: "bfs_next_step m s t [] = Some c" "path_from_to m [] s t (s # c # rest)"
      "\<forall>p'. path_from_to m [] s t p' \<longrightarrow> length (s # c # rest) \<le> length p'" by blast
  from c(3) p0 have len: "length (c # rest) \<le> n" by auto
  from c(2) have "is_path m t [] (c # rest)" "last (c # rest) = t"
    by (auto simp: path_from_to_def)
  from path_manhattan [OF this(1)] this(2) have "manhattan c t \<le> int (length (c # rest)) - 1"
    by simp
  with len n have "manhattan c t < manhattan s t" by simp
  with c(1) show ?thesis by blast
qed

lemma greedy_step_result: "greedy_step m s t occ = c \<Longrightarrow> c = s \<or> \<not> blocked m t occ c"
  by (auto simp: greedy_step_def Let_def split: if_splits)

lemma bfs_next_step_result:
  assumes r: "bfs_next_step m s t occ = Some c"
  shows "c = s \<or> \<not> blocked m t occ c"
proof (cases "s = t")
  case True
  with r show ?thesis by (simp add: bfs_next_step_same)
next
  case False
  from False have nes: "\<not> (fst s = fst t \<and> snd s = snd t)" by (auto simp: prod_eq_iff)
  with r have g: "in_grid (fst s) (snd s)"
    by (auto simp: bfs_next_step_def split: if_splits)
  show ?thesis
  proof (cases "\<exists>p. path_from_to m occ s t p")
    case True
    then obtain p0 where "path_from_to m occ s t p0" by blast
    from bfs_next_step_path [OF False g this] r obtain rest where
      "path_from_to m occ s t (s # c # rest)" by auto
    then have "step_ok m t occ s c" by (simp add: path_from_to_def)
    then show ?thesis by (simp add: step_ok_def)
  next
    case nop: False
    with bfs_next_step_nopath [OF False g] r have "greedy_step m s t occ = c" by simp
    from greedy_step_result [OF this] show ?thesis .
  qed
qed

lemma greedy_step_spec: "greedy_step m s t occ = greedy_spec m s t occ"
  by (auto simp: greedy_step_def greedy_spec_def toward_def Let_def prod_eq_iff)

lemma path_tail_unblocked:
  "is_path m t occ (c # cs) \<Longrightarrow> cs \<noteq> [] \<Longrightarrow> \<not> blocked m t occ (last cs)"
proof (induction cs arbitrary: c)
  case Nil
  then show ?case by simp
next
  case (Cons c' cs')
  show ?case
  proof (cases cs')
    case Nil
    with Cons.prems show ?thesis by (simp add: step_ok_def)
  next
    case (Cons c'' cs'')
    with Cons.prems Cons.IH [of c'] show ?thesis by simp
  qed
qed

lemma path_last_unblocked:
  "is_path m t occ p \<Longrightarrow> 2 \<le> length p \<Longrightarrow> \<not> blocked m t occ (last p)"
  using path_tail_unblocked [of m t occ "hd p" "tl p"]
  by (cases p; cases "tl p") auto

lemma no_path_blocked_target:
  assumes "blocked m t occ t" "s \<noteq> t"
  shows "\<not> path_from_to m occ s t p"
proof
  assume p: "path_from_to m occ s t p"
  then have "2 \<le> length p"
    using assms(2) by (cases p; cases "tl p") (auto simp: path_from_to_def)
  with path_last_unblocked [of m t occ p] p assms(1) show False
    by (simp add: path_from_to_def)
qed

lemma no_path_walled_in:
  assumes walled: "list_all (\<lambda>d. \<not> (in_grid (fst s + fst d) (snd s + snd d) \<and>
                      cell_at m (fst s + fst d) (snd s + snd d) = CHR ''.'')) dirs"
    and ne: "s \<noteq> t"
  shows "\<not> path_from_to m occ s t p"
proof
  assume p: "path_from_to m occ s t p"
  then obtain c rest where pe: "p = s # c # rest"
    using ne by (cases p; cases "tl p") (auto simp: path_from_to_def)
  with p have "step_ok m t occ s c" by (simp add: path_from_to_def)
  then obtain d where d: "d \<in> set dirs" "c = (fst s + fst d, snd s + snd d)" "\<not> blocked m t occ c"
    by (auto simp: step_ok_def list_ex_iff)
  from d(2,3) have "in_grid (fst s + fst d) (snd s + snd d) \<and> cell_at m (fst s + fst d) (snd s + snd d) = CHR ''.''"
    by (auto simp: blocked_def split: if_splits)
  with walled d(1) show False by (auto simp: list_all_iff)
qed

lemma greedy_spec_walled_in:
  assumes walled: "list_all (\<lambda>d. \<not> (in_grid (fst s + fst d) (snd s + snd d) \<and>
                      cell_at m (fst s + fst d) (snd s + snd d) = CHR ''.'')) dirs"
  shows "greedy_spec m s t occ = s"
proof -
  have b: "blocked m t occ (fst s + fst d, snd s + snd d)" if "d \<in> set dirs" for d
    using walled that by (auto simp: list_all_iff blocked_def)
  have "blocked m t occ (fst s + 1, snd s)" "blocked m t occ (fst s - 1, snd s)"
    "blocked m t occ (fst s, snd s + 1)" "blocked m t occ (fst s, snd s - 1)"
    using b [of "(1, 0)"] b [of "(- 1, 0)"] b [of "(0, 1)"] b [of "(0, - 1)"]
    by (simp_all add: dirs_def)
  then show ?thesis
    by (auto simp: greedy_spec_def toward_def Let_def prod_eq_iff)
qed


section \<open>Generation and placement\<close>

lemma wf_create_empty_map: "wf_grid create_empty_map"
  by (simp add: wf_grid_def create_empty_map_def)

lemma wf_set_cell: "wf_grid m \<Longrightarrow> wf_grid (set_cell m x y c)"
proof -
  assume w: "wf_grid m"
  show ?thesis
  proof (cases "nat y < length m")
    case True
    have "set (m[nat y := (m ! nat y)[nat x := c]]) \<subseteq> insert ((m ! nat y)[nat x := c]) (set m)"
      by (rule set_update_subset_insert)
    moreover have "length ((m ! nat y)[nat x := c]) = nat MAP_W"
      using w True by (simp add: wf_grid_def)
    ultimately show ?thesis using w by (auto simp: wf_grid_def set_cell_def)
  next
    case False
    with w show ?thesis by (simp add: set_cell_def list_update_beyond)
  qed
qed

lemma cell_at_set_cell:
  assumes w: "wf_grid m" and g: "in_grid x y" and g': "in_grid x' y'"
  shows "cell_at (set_cell m x y c) x' y' = (if x' = x \<and> y' = y then c else cell_at m x' y')"
proof -
  from w g g' have ly: "nat y < length m" "nat y' < length m"
    and lx: "nat x < length (m ! nat y)" "nat x' < length (m ! nat y')"
    by (auto simp: wf_grid_def in_grid_def)
  from g g' have eq: "(nat y' = nat y) = (y' = y)" "(nat x' = nat x) = (x' = x)"
    by (auto simp: in_grid_def)
  show ?thesis
    using ly lx eq by (auto simp: cell_at_def set_cell_def nth_list_update)
qed

lemma wf_carve_cell: "wf_grid m \<Longrightarrow> wf_grid (carve_cell m x y)"
  by (simp add: carve_cell_def wf_set_cell)

lemma is_floor_carve_cell:
  "wf_grid m \<Longrightarrow> is_floor (carve_cell m x y) c \<longleftrightarrow> is_floor m c \<or> (in_grid x y \<and> c = (x, y))"
  by (cases c) (auto simp: carve_cell_def is_floor_def cell_at_set_cell)

lemma fold_carve_row:
  "wf_grid m \<Longrightarrow>
   wf_grid (fold (\<lambda>x m1. carve_cell m1 x y) xs m) \<and>
   (\<forall>c. is_floor (fold (\<lambda>x m1. carve_cell m1 x y) xs m) c \<longleftrightarrow>
        is_floor m c \<or> (\<exists>x \<in> set xs. in_grid x y \<and> c = (x, y)))"
proof (induction xs arbitrary: m)
  case Nil
  then show ?case by simp
next
  case (Cons x xs)
  from Cons.IH [OF wf_carve_cell [OF Cons.prems, of x y]]
  show ?case by (auto simp: is_floor_carve_cell [OF Cons.prems])
qed

lemma fold_carve_col:
  "wf_grid m \<Longrightarrow>
   wf_grid (fold (\<lambda>y m1. carve_cell m1 x y) ys m) \<and>
   (\<forall>c. is_floor (fold (\<lambda>y m1. carve_cell m1 x y) ys m) c \<longleftrightarrow>
        is_floor m c \<or> (\<exists>y \<in> set ys. in_grid x y \<and> c = (x, y)))"
proof (induction ys arbitrary: m)
  case Nil
  then show ?case by simp
next
  case (Cons y ys)
  from Cons.IH [OF wf_carve_cell [OF Cons.prems, of x y]]
  show ?case by (auto simp: is_floor_carve_cell [OF Cons.prems])
qed

lemma fold_carve_rows:
  "wf_grid m \<Longrightarrow>
   wf_grid (fold (\<lambda>yy m1. fold (\<lambda>xx m2. carve_cell m2 xx yy) xs m1) ys m) \<and>
   (\<forall>c. is_floor (fold (\<lambda>yy m1. fold (\<lambda>xx m2. carve_cell m2 xx yy) xs m1) ys m) c \<longleftrightarrow>
        is_floor m c \<or> (\<exists>y \<in> set ys. \<exists>x \<in> set xs. in_grid x y \<and> c = (x, y)))"
proof (induction ys arbitrary: m)
  case Nil
  then show ?case by simp
next
  case (Cons y ys)
  let ?m1 = "fold (\<lambda>xx m2. carve_cell m2 xx y) xs m"
  from fold_carve_row [OF Cons.prems, of y xs]
  have w1: "wf_grid ?m1"
    and f1: "\<And>c. is_floor ?m1 c \<longleftrightarrow> is_floor m c \<or> (\<exists>x \<in> set xs. in_grid x y \<and> c = (x, y))"
    by auto
  from Cons.IH [OF w1] show ?case by (auto simp: f1)
qed

lemma carve_room_floor:
  "wf_grid m \<Longrightarrow>
   wf_grid (carve_room m r) \<and>
   (\<forall>c. is_floor (carve_room m r) c \<longleftrightarrow>
      is_floor m c \<or> (in_grid (fst c) (snd c) \<and> rect_x r \<le> fst c \<and> fst c < rect_x r + rect_w r \<and>
                       rect_y r \<le> snd c \<and> snd c < rect_y r + rect_h r))"
  using fold_carve_rows [of m "[rect_x r .. rect_x r + rect_w r - 1]" "[rect_y r .. rect_y r + rect_h r - 1]"]
  by (auto simp: carve_room_def)

lemma carve_h_floor:
  "wf_grid m \<Longrightarrow> wf_grid (carve_h m x1 x2 y) \<and> (\<forall>c. is_floor m c \<longrightarrow> is_floor (carve_h m x1 x2 y) c)"
  using fold_carve_row [of m y]
  by (simp add: carve_h_def Let_def)

lemma carve_v_floor:
  "wf_grid m \<Longrightarrow> wf_grid (carve_v m y1 y2 x) \<and> (\<forall>c. is_floor m c \<longrightarrow> is_floor (carve_v m y1 y2 x) c)"
  using fold_carve_col [of m x]
  by (simp add: carve_v_def Let_def)

lemma rnd_eq_range: "rnd a b g = (v, g') \<Longrightarrow> a \<le> b \<Longrightarrow> a \<le> v \<and> v \<le> b"
  using rnd_range [of a b g] by simp

lemma room_cells_in_grid: "room_ok r \<Longrightarrow> c \<in> room_cells r \<Longrightarrow> in_grid (fst c) (snd c)"
  by (auto simp: room_ok_def room_cells_def in_grid_def)

lemma room_inv_grow:
  assumes "room_inv m rs" "wf_grid m'" "\<And>c. is_floor m c \<Longrightarrow> is_floor m' c"
  shows "room_inv m' rs"
  using assms by (auto simp: room_inv_def)

lemma room_inv_carve:
  assumes inv: "room_inv m rs" and ok: "room_ok r"
  shows "room_inv (carve_room m r) (rs @ [r])"
proof -
  from inv have w: "wf_grid m" by (simp add: room_inv_def)
  from carve_room_floor [OF w, of r]
  have w': "wf_grid (carve_room m r)"
    and fl: "\<And>c. is_floor (carve_room m r) c \<longleftrightarrow>
      is_floor m c \<or> (in_grid (fst c) (snd c) \<and> rect_x r \<le> fst c \<and> fst c < rect_x r + rect_w r \<and>
                       rect_y r \<le> snd c \<and> snd c < rect_y r + rect_h r)"
    by auto
  have new: "\<forall>c \<in> room_cells r. is_floor (carve_room m r) c"
    using room_cells_in_grid [OF ok] by (auto simp: fl room_cells_def)
  from room_inv_grow [OF inv w'] fl have "room_inv (carve_room m r) rs" by blast
  with ok new w' show ?thesis by (auto simp: room_inv_def)
qed

lemma room_inv_corridor:
  assumes inv: "room_inv m rs"
  shows "room_inv (carve_v (carve_h m a b c) d e f) rs"
    and "room_inv (carve_h (carve_v m a b c) d e f) rs"
proof -
  from inv have w: "wf_grid m" by (simp add: room_inv_def)
  from carve_h_floor [OF w, of a b c] have h: "wf_grid (carve_h m a b c)"
    "\<And>x. is_floor m x \<Longrightarrow> is_floor (carve_h m a b c) x" by auto
  from carve_v_floor [OF h(1), of d e f] h(2) have hv: "wf_grid (carve_v (carve_h m a b c) d e f)"
    "\<And>x. is_floor m x \<Longrightarrow> is_floor (carve_v (carve_h m a b c) d e f) x" by auto
  from room_inv_grow [OF inv hv] show "room_inv (carve_v (carve_h m a b c) d e f) rs" .
  from carve_v_floor [OF w, of a b c] have v: "wf_grid (carve_v m a b c)"
    "\<And>x. is_floor m x \<Longrightarrow> is_floor (carve_v m a b c) x" by auto
  from carve_h_floor [OF v(1), of d e f] v(2) have vh: "wf_grid (carve_h (carve_v m a b c) d e f)"
    "\<And>x. is_floor m x \<Longrightarrow> is_floor (carve_h (carve_v m a b c) d e f) x" by auto
  from room_inv_grow [OF inv vh] show "room_inv (carve_h (carve_v m a b c) d e f) rs" .
qed

lemma room_loop_inv:
  assumes run: "room_loop i n m rs g = Some res"
  shows "room_inv m rs \<longrightarrow>
     room_inv (fst res) (fst (snd res)) \<and> ((i < n \<or> rs \<noteq> []) \<longrightarrow> fst (snd res) \<noteq> [])"
proof (rule room_loop.raw_induct [where P = "\<lambda>i n m rs g res. room_inv m rs \<longrightarrow>
     room_inv (fst res) (fst (snd res)) \<and> ((i < n \<or> rs \<noteq> []) \<longrightarrow> fst (snd res) \<noteq> [])", OF _ run],
    goal_cases)
  case (1 f i n m rs g res)
  note IH = "1"(1) and body = "1"(2)
  show ?case
  proof
    assume inv: "room_inv m rs"
    show "room_inv (fst res) (fst (snd res)) \<and> ((i < n \<or> rs \<noteq> []) \<longrightarrow> fst (snd res) \<noteq> [])"
    proof (cases "i < n")
      case False
      with body inv show ?thesis by auto
    next
      case True
      obtain w g1 where r1: "rnd 3 8 g = (w, g1)" by (cases "rnd 3 8 g") auto
      obtain h g2 where r2: "rnd 3 5 g1 = (h, g2)" by (cases "rnd 3 5 g1") auto
      obtain x g3 where r3: "rnd 1 (MAP_W - w - 1) g2 = (x, g3)"
        by (cases "rnd 1 (MAP_W - w - 1) g2") auto
      obtain y g4 where r4: "rnd 1 (MAP_H - h - 1) g3 = (y, g4)"
        by (cases "rnd 1 (MAP_H - h - 1) g3") auto
      define r where "r = \<lparr>rect_x = x, rect_y = y, rect_w = w, rect_h = h\<rparr>"
      from rnd_eq_range [OF r1] rnd_eq_range [OF r2] have wh: "3 \<le> w" "w \<le> 8" "3 \<le> h" "h \<le> 5"
        by auto
      from rnd_eq_range [OF r3] rnd_eq_range [OF r4] wh
      have xy: "1 \<le> x" "x \<le> MAP_W - w - 1" "1 \<le> y" "y \<le> MAP_H - h - 1"
        by (auto simp: MAP_W_def MAP_H_def)
      from wh xy have ok: "room_ok r" by (simp add: room_ok_def r_def)
      show ?thesis
      proof (cases "list_ex (intersects r) rs")
        case ex: True
        with body True r1 r2 r3 r4 have "f i n m rs g4 = Some res"
          by (simp add: r_def Let_def)
        from IH [OF this] inv True show ?thesis by simp
      next
        case nex: False
        show ?thesis
        proof (cases "rs \<noteq> []")
          case False
          with body True nex r1 r2 r3 r4
          have "f (i + 1) n (carve_room m r) (rs @ [r]) g4 = Some res"
            by (simp add: r_def Let_def)
          from IH [OF this] room_inv_carve [OF inv ok] show ?thesis by simp
        next
          case ne: True
          obtain c g5 where r5: "rnd 0 1 g4 = (c, g5)" by (cases "rnd 0 1 g4") auto
          define m2 where "m2 =
            (if c = 0 then carve_v (carve_h (carve_room m r) (centerX (last rs)) (centerX r) (centerY (last rs)))
                             (centerY (last rs)) (centerY r) (centerX r)
             else carve_h (carve_v (carve_room m r) (centerY (last rs)) (centerY r) (centerX (last rs)))
                    (centerX (last rs)) (centerX r) (centerY r))"
          from body True nex ne r1 r2 r3 r4 r5
          have "f (i + 1) n m2 (rs @ [r]) g5 = Some res"
            by (cases "c = 0") (simp_all add: r_def m2_def Let_def)
          moreover have "room_inv m2 (rs @ [r])"
            unfolding m2_def using room_inv_corridor [OF room_inv_carve [OF inv ok]] by simp
          ultimately show ?thesis using IH by simp
        qed
      qed
    qed
  qed
qed

lemma any_floor_iff: "any_floor m \<longleftrightarrow> (\<exists>c. is_floor m c)"
proof
  assume "any_floor m"
  then obtain x y where "0 \<le> y" "y \<le> MAP_H - 1" "0 \<le> x" "x \<le> MAP_W - 1" "cell_at m x y = CHR ''.''"
    by (auto simp: any_floor_def list_ex_iff)
  then have "is_floor m (x, y)" by (simp add: is_floor_def in_grid_def)
  then show "\<exists>c. is_floor m c" ..
next
  assume "\<exists>c. is_floor m c"
  then obtain c where "is_floor m c" ..
  then have "snd c \<in> set [0 .. MAP_H - 1]" "fst c \<in> set [0 .. MAP_W - 1]"
    "cell_at m (fst c) (snd c) = CHR ''.''"
    by (auto simp: is_floor_def in_grid_def)
  then show "any_floor m" unfolding any_floor_def list_ex_iff by blast
qed

lemma carve_interior_eq:
  "carve_interior m =
     fold (\<lambda>yy m1. fold (\<lambda>xx m2. carve_cell m2 xx yy) [1 .. MAP_W - 2] m1) [1 .. MAP_H - 2] m"
proof -
  have inner: "fold (\<lambda>x m2. set_cell m2 x y CHR ''.'') [1 .. MAP_W - 2] =
               fold (\<lambda>xx m2. carve_cell m2 xx y) [1 .. MAP_W - 2]"
    if "y \<in> set [1 .. MAP_H - 2]" for y
  proof (rule ext, rule fold_cong)
    fix x assume "x \<in> set [1 .. MAP_W - 2]"
    with that have "in_grid x y" by (auto simp: in_grid_def)
    then show "(\<lambda>m2. set_cell m2 x y CHR ''.'') = (\<lambda>m2. carve_cell m2 x y)"
      by (simp add: carve_cell_def)
  qed simp_all
  show ?thesis
    unfolding carve_interior_def
    by (rule fold_cong) (simp_all add: inner)
qed

lemma carve_interior_floor:
  assumes w: "wf_grid m"
  shows "wf_grid (carve_interior m)" and "is_floor m c \<Longrightarrow> is_floor (carve_interior m) c"
    and "is_floor (carve_interior m) (1, 1)"
  using fold_carve_rows [OF w, of "[1 .. MAP_W - 2]" "[1 .. MAP_H - 2]"]
  by (cases c; auto simp: carve_interior_eq in_grid_def MAP_W_def MAP_H_def)+

lemma sdiv_half: "0 \<le> w \<Longrightarrow> w sdiv 2 = w div (2::int)"
  by (cases "w = 0") (simp_all add: signed_divide_int_def)

lemma center_in_room: "room_ok r \<Longrightarrow> (centerX r, centerY r) \<in> room_cells r"
  by (auto simp: room_ok_def room_cells_def centerX_def centerY_def sdiv_half)

lemma generate_map_basic_inv:
  assumes gen: "generate_map_basic g = Some (m, rs, g')"
  shows "room_inv m rs" and "rs \<noteq> []" and "\<exists>c. is_floor m c"
proof -
  obtain n g1 where r: "rnd 3 6 g = (n, g1)" by (cases "rnd 3 6 g") auto
  from rnd_eq_range [OF r] have n: "0 < n" by simp
  from gen r obtain m0 where loop: "room_loop 0 n create_empty_map [] g1 = Some (m0, rs, g')"
    and m: "m = (if any_floor m0 then m0 else carve_interior m0)"
    by (auto simp: generate_map_basic_def split: option.splits)
  have "room_inv create_empty_map []"
    by (simp add: room_inv_def wf_create_empty_map)
  with room_loop_inv [OF loop] n have inv0: "room_inv m0 rs" and ne: "rs \<noteq> []" by auto
  then have w0: "wf_grid m0" by (simp add: room_inv_def)
  show "rs \<noteq> []" by (rule ne)
  show "room_inv m rs"
  proof (cases "any_floor m0")
    case True
    with m inv0 show ?thesis by simp
  next
    case False
    with m have "m = carve_interior m0" by simp
    with room_inv_grow [OF inv0 carve_interior_floor(1) [OF w0]] carve_interior_floor(2) [OF w0]
    show ?thesis by simp
  qed
  show "\<exists>c. is_floor m c"
  proof (cases "any_floor m0")
    case True
    with m show ?thesis by (simp add: any_floor_iff)
  next
    case False
    with m carve_interior_floor(3) [OF w0] show ?thesis by auto
  qed
qed

lemma floor_cells_set: "set (floor_cells m) = {c. is_floor m c}"
  by (auto simp: floor_cells_def is_floor_def in_grid_def)

lemma random_floor_tile_floor:
  assumes ex: "is_floor m c" and r: "random_floor_tile m g = (p, g')"
  shows "is_floor m p"
proof -
  from ex have ne: "floor_cells m \<noteq> []"
    using floor_cells_set [of m] by auto
  obtain k g1 where k: "rnd 0 (int (length (floor_cells m)) - 1) g = (k, g1)"
    by (cases "rnd 0 (int (length (floor_cells m)) - 1) g") auto
  from ne have "0 \<le> int (length (floor_cells m)) - 1"
    by (cases "floor_cells m") auto
  from rnd_eq_range [OF k this] have "nat k < length (floor_cells m)" by auto
  then have "floor_cells m ! nat k \<in> set (floor_cells m)" by simp
  moreover from r ne k have "p = floor_cells m ! nat k"
    by (simp add: random_floor_tile_def Let_def)
  ultimately show ?thesis by (simp add: floor_cells_set)
qed

lemma enemy_loop_inv:
  assumes run: "enemy_loop i n m pl cfg es g = Some res"
  shows "(\<exists>c0. is_floor m c0) \<and> enemy_inv m pl es \<longrightarrow> enemy_inv m pl (fst res)"
proof (rule enemy_loop.raw_induct [where P = "\<lambda>i n m pl cfg es g res.
      (\<exists>c0. is_floor m c0) \<and> enemy_inv m pl es \<longrightarrow> enemy_inv m pl (fst res)", OF _ run], goal_cases)
  case (1 f i n m pl cfg es g res)
  note IH = "1"(1) and body = "1"(2)
  show ?case
  proof (intro impI, elim conjE exE)
   fix c0 assume ex: "is_floor m c0" and inv: "enemy_inv m pl es"
   show "enemy_inv m pl (fst res)"
  proof (cases "i < n")
    case False
    with body inv show ?thesis by auto
  next
    case True
    obtain p g1 where t: "random_floor_tile m g = (p, g1)" by (cases "random_floor_tile m g") auto
    from random_floor_tile_floor [OF ex t] have pf: "is_floor m p" .
    show ?thesis
    proof (cases "(fst p = fst pl \<and> snd p = snd pl) \<or> list_ex (\<lambda>e. enemy_x e = fst p \<and> enemy_y e = snd p) es")
      case retry: True
      with body True t have "f i n m pl cfg es g1 = Some res"
        by (auto split: if_splits)
      from IH [OF this] inv ex show ?thesis by blast
    next
      case place: False
      obtain h g2 where r: "rnd (enemyHpMin cfg) (enemyHpMax cfg) g1 = (h, g2)"
        by (cases "rnd (enemyHpMin cfg) (enemyHpMax cfg) g1") auto
      define e where "e = \<lparr>enemy_x = fst p, enemy_y = snd p, hp = h, alive = True\<rparr>"
      from body True t place r have run': "f (i + 1) n m pl cfg (es @ [e]) g2 = Some res"
        by (auto simp: e_def split: if_splits)
      have ec: "enemy_cell e = p" by (simp add: enemy_cell_def e_def)
      from place have "p \<noteq> pl" by (auto simp: prod_eq_iff)
      moreover from place have "p \<notin> set (map enemy_cell es)"
        by (auto simp: list_ex_iff enemy_cell_def)
      ultimately have "enemy_inv m pl (es @ [e])"
        using inv pf ec by (auto simp: enemy_inv_def e_def)
      with IH [OF run'] ex show ?thesis by blast
    qed
  qed
  qed
qed

lemma item_loop_inv:
  assumes run: "item_loop i n m pl es its g = Some res"
  shows "(\<exists>c0. is_floor m c0) \<and> item_inv m pl es its \<longrightarrow> item_inv m pl es (fst res)"
proof (rule item_loop.raw_induct [where P = "\<lambda>i n m pl es its g res.
      (\<exists>c0. is_floor m c0) \<and> item_inv m pl es its \<longrightarrow> item_inv m pl es (fst res)", OF _ run], goal_cases)
  case (1 f i n m pl es its g res)
  note IH = "1"(1) and body = "1"(2)
  show ?case
  proof (intro impI, elim conjE exE)
   fix c0 assume ex: "is_floor m c0" and inv: "item_inv m pl es its"
   show "item_inv m pl es (fst res)"
  proof (cases "i < n")
    case False
    with body inv show ?thesis by auto
  next
    case True
    obtain p g1 where t: "random_floor_tile m g = (p, g1)" by (cases "random_floor_tile m g") auto
    from random_floor_tile_floor [OF ex t] have pf: "is_floor m p" .
    show ?thesis
    proof (cases "(fst p = fst pl \<and> snd p = snd pl) \<or>
                  list_ex (\<lambda>it. item_x it = fst p \<and> item_y it = snd p) its \<or>
                  list_ex (\<lambda>e. enemy_x e = fst p \<and> enemy_y e = snd p) es")
      case retry: True
      with body True t have "f i n m pl es its g1 = Some res"
        by (auto split: if_splits)
      from IH [OF this] inv ex show ?thesis by blast
    next
      case place: False
      define it where "it = \<lparr>item_x = fst p, item_y = snd p\<rparr>"
      from body True t place have run': "f (i + 1) n m pl es (its @ [it]) g1 = Some res"
        by (auto simp: it_def split: if_splits)
      have ic: "item_cell it = p" by (simp add: item_cell_def it_def)
      from place have "p \<noteq> pl" by (auto simp: prod_eq_iff)
      moreover from place have "p \<notin> set (map item_cell its)" "p \<notin> set (map enemy_cell es)"
        by (auto simp: list_ex_iff item_cell_def enemy_cell_def)
      ultimately have "item_inv m pl es (its @ [it])"
        using inv pf ic by (auto simp: item_inv_def it_def)
      with IH [OF run'] ex show ?thesis by blast
    qed
  qed
  qed
qed

lemma regenerate_map_inv:
  assumes reg: "regenerate_map s = Some s'"
  shows "room_inv (mapG s') (rooms s')"
    and "is_floor (mapG s') (playerX s', playerY s')"
    and "enemy_inv (mapG s') (playerX s', playerY s') (enemies s')"
    and "item_inv (mapG s') (playerX s', playerY s') (enemies s') (items s')"
proof -
  from reg obtain m rs g1 where gen: "generate_map_basic (rng s) = Some (m, rs, g1)"
    by (auto simp: regenerate_map_def split: option.splits)
  note gi = generate_map_basic_inv [OF gen]
  define pl where "pl = (centerX (hd rs), centerY (hd rs))"
  define cfg where "cfg = diffConfigs (diff s)"
  obtain ecount g3 where r3: "rnd (enemyMin cfg) (enemyMax cfg) g1 = (ecount, g3)"
    by (cases "rnd (enemyMin cfg) (enemyMax cfg) g1") auto
  from reg gen gi(2) r3 obtain es g4 where el: "enemy_loop 0 ecount m pl cfg [] g3 = Some (es, g4)"
    by (auto simp: regenerate_map_def Let_def pl_def cfg_def split: option.splits)
  obtain pcount g5 where r5: "rnd (potionMin cfg) (potionMax cfg) g4 = (pcount, g5)"
    by (cases "rnd (potionMin cfg) (potionMax cfg) g4") auto
  from reg gen gi(2) r3 el r5 obtain its g6 where il: "item_loop 0 pcount m pl es [] g5 = Some (its, g6)"
    by (auto simp: regenerate_map_def Let_def pl_def cfg_def split: option.splits)
  from reg gen gi(2) r3 el r5 il
  have s': "mapG s' = m" "rooms s' = rs" "(playerX s', playerY s') = pl" "enemies s' = es" "items s' = its"
    by (auto simp: regenerate_map_def Let_def pl_def cfg_def split: option.splits prod.splits)
  from gi(2) have "hd rs \<in> set rs" by simp
  with gi(1) have "room_ok (hd rs)" "\<forall>c \<in> room_cells (hd rs). is_floor m c"
    by (auto simp: room_inv_def)
  with center_in_room [of "hd rs"] have plf: "is_floor m pl" by (simp add: pl_def)
  have "enemy_inv m pl []" by (simp add: enemy_inv_def)
  with enemy_loop_inv [OF el] gi(3) have ei: "enemy_inv m pl es" by auto
  have "item_inv m pl es []" by (simp add: item_inv_def)
  with item_loop_inv [OF il] gi(3) have ii: "item_inv m pl es its" by auto
  show "room_inv (mapG s') (rooms s')" using gi(1) s' by simp
  show "is_floor (mapG s') (playerX s', playerY s')" using plf s' by simp
  show "enemy_inv (mapG s') (playerX s', playerY s') (enemies s')" using ei s' by simp
  show "item_inv (mapG s') (playerX s', playerY s') (enemies s') (items s')" using ii s' by simp
qed


section \<open>The turn resolver\<close>

lemma resolve_agent_cases:
  "resolve_agent np i (s, R) =
     (if \<not> alive (enemies s ! i) then (s, R)
      else if np ! i = (playerX s, playerY s) then
        (s\<lparr>playerHP := playerHP s -
               fst (rnd (enemyAtkMin (diffConfigs (diff s))) (enemyAtkMax (diffConfigs (diff s))) (rng s)),
           rng := snd (rnd (enemyAtkMin (diffConfigs (diff s))) (enemyAtkMax (diffConfigs (diff s))) (rng s))\<rparr>,
         insert (enemy_cell (enemies s ! i)) R)
      else if 0 \<le> fst (np ! i) \<and> cell_at (mapG s) (fst (np ! i)) (snd (np ! i)) = CHR ''.'' \<and> np ! i \<notin> R then
        (s\<lparr>enemies := (enemies s)[i := (enemies s ! i)\<lparr>enemy_x := fst (np ! i), enemy_y := snd (np ! i)\<rparr>]\<rparr>,
         insert (np ! i) R)
      else (s, insert (enemy_cell (enemies s ! i)) R))"
proof -
  have eq: "(fst (np ! i) = playerX s \<and> snd (np ! i) = playerY s) = (np ! i = (playerX s, playerY s))"
    by (auto simp: prod_eq_iff)
  show ?thesis
    unfolding resolve_agent_def prod.case Let_def eq enemy_cell_def
    by (simp add: case_prod_beta not_less)
qed

lemma resolve_agent_frame:
  assumes r: "resolve_agent np i (s, R) = (s', R')"
  shows "mapG s' = mapG s" and "playerX s' = playerX s" and "playerY s' = playerY s"
    and "diff s' = diff s" and "length (enemies s') = length (enemies s)"
    and "\<And>j. j \<noteq> i \<Longrightarrow> enemies s' ! j = enemies s ! j"
    and "\<And>j. j < length (enemies s) \<Longrightarrow> alive (enemies s' ! j) = alive (enemies s ! j)"
    and "items s' = items s" and "score s' = score s" and "turns s' = turns s"
    and "hsFile s' = hsFile s" and "highScore s' = highScore s"
proof -
  from r have s': "s' = fst (resolve_agent np i (s, R))" by simp
  show "mapG s' = mapG s" "playerX s' = playerX s" "playerY s' = playerY s"
    "diff s' = diff s" "length (enemies s') = length (enemies s)"
    "items s' = items s" "score s' = score s" "turns s' = turns s"
    "hsFile s' = hsFile s" "highScore s' = highScore s"
    unfolding s' resolve_agent_cases by simp_all
  show "\<And>j. j \<noteq> i \<Longrightarrow> enemies s' ! j = enemies s ! j"
    unfolding s' resolve_agent_cases by simp
  show "alive (enemies s' ! j) = alive (enemies s ! j)" if "j < length (enemies s)" for j
  proof (cases "j = i")
    case True
    with that show ?thesis unfolding s' resolve_agent_cases by simp
  next
    case False
    then show ?thesis unfolding s' resolve_agent_cases by simp
  qed
qed

lemma resolve_agent_reserved:
  assumes r: "resolve_agent np i (s, R) = (s', R')" and i: "i < length (enemies s)"
  shows "R' = (if alive (enemies s ! i) then insert (enemy_cell (enemies s' ! i)) R else R)"
proof -
  from r have s': "s' = fst (resolve_agent np i (s, R))" and R': "R' = snd (resolve_agent np i (s, R))"
    by simp_all
  show ?thesis
    unfolding s' R' resolve_agent_cases using i by (simp add: enemy_cell_def)
qed

lemma resolve_prefix_Suc:
  "resolve_prefix s np (Suc k) = resolve_agent np k (resolve_prefix s np k)"
  by (simp add: resolve_prefix_def)

lemma resolve_frame_step:
  assumes f: "resolve_frame s k sr" and k: "k < length (enemies s)"
  shows "resolve_frame s (Suc k) (resolve_agent np k sr)"
proof -
  obtain sk R where sr: "sr = (sk, R)" by (cases sr)
  obtain s' R' where r: "resolve_agent np k (sk, R) = (s', R')"
    by (cases "resolve_agent np k (sk, R)")
  note fr = resolve_agent_frame [OF r]
  from f sr have f1: "mapG sk = mapG s" "playerX sk = playerX s" "playerY sk = playerY s"
    "diff sk = diff s" "length (enemies sk) = length (enemies s)"
    and f2: "\<And>j. j < length (enemies s) \<Longrightarrow> alive (enemies sk ! j) = alive (enemies s ! j)"
    and f3: "\<And>j. j < length (enemies s) \<Longrightarrow> k \<le> j \<Longrightarrow> enemies sk ! j = enemies s ! j"
    and f4: "R = {c. \<exists>j < k. j < length (enemies s) \<and> alive (enemies sk ! j) \<and> c = enemy_cell (enemies sk ! j)}"
    by (auto simp: resolve_frame_def)
  from k f1 have k': "k < length (enemies sk)" by simp
  have R': "R' = {c. \<exists>j < Suc k. j < length (enemies s) \<and> alive (enemies s' ! j) \<and> c = enemy_cell (enemies s' ! j)}"
  proof -
    have old: "{c. \<exists>j < k. j < length (enemies s) \<and> alive (enemies s' ! j) \<and> c = enemy_cell (enemies s' ! j)} = R"
      unfolding f4 using fr(6) by auto
    have "{c. \<exists>j < Suc k. j < length (enemies s) \<and> alive (enemies s' ! j) \<and> c = enemy_cell (enemies s' ! j)} =
       {c. \<exists>j < k. j < length (enemies s) \<and> alive (enemies s' ! j) \<and> c = enemy_cell (enemies s' ! j)} \<union>
       (if alive (enemies s' ! k) then {enemy_cell (enemies s' ! k)} else {})"
      using k by (auto simp: less_Suc_eq)
    also have "\<dots> = R \<union> (if alive (enemies sk ! k) then {enemy_cell (enemies s' ! k)} else {})"
      using old fr(7) [OF k'] by simp
    also have "\<dots> = R'"
      using resolve_agent_reserved [OF r k'] by auto
    finally show ?thesis by simp
  qed
  have "resolve_frame s (Suc k) (s', R')"
    unfolding resolve_frame_def prod.case
    using fr(1-5) f1 f2 f3 R' fr(6) fr(7) by auto
  with sr r show ?thesis by simp
qed

lemma resolve_frame_prefix:
  "k \<le> length (enemies s) \<Longrightarrow> resolve_frame s k (resolve_prefix s np k)"
proof (induction k)
  case 0
  show ?case by (simp add: resolve_prefix_def resolve_frame_def)
next
  case (Suc k)
  then have "resolve_frame s k (resolve_prefix s np k)" "k < length (enemies s)" by simp_all
  from resolve_frame_step [OF this] show ?case by (simp add: resolve_prefix_Suc)
qed

lemma resolve_moves_prefix: "resolve_moves s np = resolve_prefix s np (length (enemies s))"
  by (simp add: resolve_moves_def resolve_prefix_def)

lemma resolve_moves_split:
  assumes "k < length (enemies s)"
  shows "resolve_moves s np =
     fold (resolve_agent np) [Suc k ..< length (enemies s)] (resolve_agent np k (resolve_prefix s np k))"
proof -
  have "[0 ..< length (enemies s)] = [0 ..< k] @ k # [Suc k ..< length (enemies s)]"
    using assms by (metis le0 upt_conv_Cons upt_add_eq_append le_add_diff_inverse less_imp_le_nat)
  then show ?thesis by (simp add: resolve_moves_def resolve_prefix_def)
qed

lemma agents_ok_cong:
  "enemies s' = enemies s \<Longrightarrow> playerX s' = playerX s \<Longrightarrow> playerY s' = playerY s \<Longrightarrow>
   agents_ok s' = agents_ok s"
  by (simp add: agents_ok_def)

lemma agents_okD:
  assumes "agents_ok s"
  shows "\<And>i. i < length (enemies s) \<Longrightarrow> alive (enemies s ! i) \<Longrightarrow>
            in_grid (enemy_x (enemies s ! i)) (enemy_y (enemies s ! i))"
    and "\<And>i. i < length (enemies s) \<Longrightarrow> alive (enemies s ! i) \<Longrightarrow>
            enemy_cell (enemies s ! i) \<noteq> (playerX s, playerY s)"
    and "\<And>i j. i < length (enemies s) \<Longrightarrow> j < length (enemies s) \<Longrightarrow> i \<noteq> j \<Longrightarrow>
            alive (enemies s ! i) \<Longrightarrow> alive (enemies s ! j) \<Longrightarrow>
            enemy_cell (enemies s ! i) \<noteq> enemy_cell (enemies s ! j)"
  using assms unfolding agents_ok_def by blast+

lemma agents_ok_move:
  assumes ok: "agents_ok sk" and k: "k < length (enemies sk)" and al: "alive (enemies sk ! k)"
    and g: "in_grid (fst c) (snd c)" and np: "c \<noteq> (playerX sk, playerY sk)"
    and d: "\<And>j. j < length (enemies sk) \<Longrightarrow> j \<noteq> k \<Longrightarrow> alive (enemies sk ! j) \<Longrightarrow>
              c \<noteq> enemy_cell (enemies sk ! j)"
  shows "agents_ok (sk\<lparr>enemies := (enemies sk)[k := (enemies sk ! k)\<lparr>enemy_x := fst c, enemy_y := snd c\<rparr>]\<rparr>)"
proof -
  let ?es = "(enemies sk)[k := (enemies sk ! k)\<lparr>enemy_x := fst c, enemy_y := snd c\<rparr>]"
  note o = agents_okD [OF ok]
  have at_k: "enemy_cell (?es ! k) = c" "alive (?es ! k)"
    "enemy_x (?es ! k) = fst c" "enemy_y (?es ! k) = snd c"
    using k al by (simp_all add: enemy_cell_def)
  have other: "\<And>j. j \<noteq> k \<Longrightarrow> ?es ! j = enemies sk ! j" by simp
  have a: "in_grid (enemy_x (?es ! i)) (enemy_y (?es ! i)) \<and> enemy_cell (?es ! i) \<noteq> (playerX sk, playerY sk)"
    if "i < length (enemies sk)" "alive (?es ! i)" for i
  proof (cases "i = k")
    case True
    with at_k g np show ?thesis by simp
  next
    case False
    with that o(1) [of i] o(2) [of i] other [of i] show ?thesis by simp
  qed
  have b: "enemy_cell (?es ! i) \<noteq> enemy_cell (?es ! j)"
    if "i < length (enemies sk)" "j < length (enemies sk)" "i \<noteq> j" "alive (?es ! i)" "alive (?es ! j)" for i j
  proof (cases "i = k")
    case True
    with that other [of j] have "j \<noteq> k" "alive (enemies sk ! j)" by auto
    from d [OF that(2) this] True at_k(1) other [OF \<open>j \<noteq> k\<close>] show ?thesis by simp
  next
    case ik: False
    show ?thesis
    proof (cases "j = k")
      case True
      from ik that other [of i] have "alive (enemies sk ! i)" by auto
      from d [OF that(1) ik this] True at_k(1) other [OF ik] show ?thesis by simp
    next
      case False
      with ik that other [of i] other [of j] o(3) [of i j] show ?thesis by simp
    qed
  qed
  show ?thesis
    unfolding agents_ok_def using a b by simp
qed

lemma resolve_agents_ok_step:
  assumes ok0: "agents_ok s" and plan: "plan_ok s np" and k: "k < length (enemies s)"
    and f: "resolve_frame s k (sk, R)" and ok: "agents_ok sk"
  shows "agents_ok (fst (resolve_agent np k (sk, R)))"
proof -
  from f have f1: "mapG sk = mapG s" "playerX sk = playerX s" "playerY sk = playerY s"
    "length (enemies sk) = length (enemies s)"
    and f2: "\<And>j. j < length (enemies s) \<Longrightarrow> alive (enemies sk ! j) = alive (enemies s ! j)"
    and f3: "\<And>j. j < length (enemies s) \<Longrightarrow> k \<le> j \<Longrightarrow> enemies sk ! j = enemies s ! j"
    and f4: "R = {c. \<exists>j < k. j < length (enemies s) \<and> alive (enemies sk ! j) \<and> c = enemy_cell (enemies sk ! j)}"
    by (auto simp: resolve_frame_def)
  let ?c = "np ! k"
  show ?thesis
  proof (cases "alive (enemies sk ! k) \<and> ?c \<noteq> (playerX sk, playerY sk) \<and> 0 \<le> fst ?c \<and>
                cell_at (mapG sk) (fst ?c) (snd ?c) = CHR ''.'' \<and> ?c \<notin> R")
    case False
    then have "enemies (fst (resolve_agent np k (sk, R))) = enemies sk"
      "playerX (fst (resolve_agent np k (sk, R))) = playerX sk"
      "playerY (fst (resolve_agent np k (sk, R))) = playerY sk"
      unfolding resolve_agent_cases by auto
    from agents_ok_cong [OF this] ok show ?thesis by simp
  next
    case True
    then have al: "alive (enemies sk ! k)" and npl: "?c \<noteq> (playerX sk, playerY sk)"
      and nr: "?c \<notin> R" by simp_all
    from True have res: "fst (resolve_agent np k (sk, R)) =
        sk\<lparr>enemies := (enemies sk)[k := (enemies sk ! k)\<lparr>enemy_x := fst ?c, enemy_y := snd ?c\<rparr>]\<rparr>"
      unfolding resolve_agent_cases by simp
    from al f2 [OF k] have al0: "alive (enemies s ! k)" by simp
    from plan k al0 have g: "in_grid (fst ?c) (snd ?c)"
      and alt: "?c = (playerX s, playerY s) \<or> ?c = enemy_cell (enemies s ! k) \<or>
        (\<forall>j < length (enemies s). j \<noteq> k \<and> alive (enemies s ! j) \<longrightarrow> ?c \<noteq> enemy_cell (enemies s ! j))"
      unfolding plan_ok_def by blast+
    have d: "?c \<noteq> enemy_cell (enemies sk ! j)"
      if j: "j < length (enemies sk)" "j \<noteq> k" "alive (enemies sk ! j)" for j
    proof (cases "j < k")
      case True
      with j f1(4) f4 have "enemy_cell (enemies sk ! j) \<in> R" by auto
      with nr show ?thesis by auto
    next
      case False
      with j have kj: "k \<le> j" "j < length (enemies s)" using f1(4) by simp_all
      from f3 [OF kj(2) kj(1)] have same: "enemies sk ! j = enemies s ! j" .
      with j(3) have alj: "alive (enemies s ! j)" by simp
      from alt npl f1 have "?c = enemy_cell (enemies s ! k) \<or>
        (\<forall>j < length (enemies s). j \<noteq> k \<and> alive (enemies s ! j) \<longrightarrow> ?c \<noteq> enemy_cell (enemies s ! j))"
        by simp
      then show ?thesis
      proof
        assume "?c = enemy_cell (enemies s ! k)"
        with agents_okD(3) [OF ok0 k kj(2) _ al0 alj] j(2) same show ?thesis by auto
      next
        assume "\<forall>j < length (enemies s). j \<noteq> k \<and> alive (enemies s ! j) \<longrightarrow> ?c \<noteq> enemy_cell (enemies s ! j)"
        with kj(2) j(2) alj same show ?thesis by simp
      qed
    qed
    from k f1(4) have k': "k < length (enemies sk)" by simp
    from agents_ok_move [OF ok k' al g npl d] res show ?thesis by simp
  qed
qed

lemma resolve_prefix_agents_ok:
  assumes ok0: "agents_ok s" and plan: "plan_ok s np"
  shows "k \<le> length (enemies s) \<Longrightarrow> agents_ok (fst (resolve_prefix s np k))"
proof (induction k)
  case 0
  show ?case using ok0 by (simp add: resolve_prefix_def)
next
  case (Suc k)
  then have k: "k < length (enemies s)" and ih: "agents_ok (fst (resolve_prefix s np k))" by simp_all
  obtain sk R where p: "resolve_prefix s np k = (sk, R)" by (cases "resolve_prefix s np k")
  from resolve_frame_prefix [of k s np] k p have f: "resolve_frame s k (sk, R)" by simp
  from resolve_agents_ok_step [OF ok0 plan k f] ih p show ?case
    by (simp add: resolve_prefix_Suc)
qed

lemma those_Some:
  "those xs = Some ys \<Longrightarrow> length ys = length xs \<and> (\<forall>i < length xs. xs ! i = Some (ys ! i))"
proof (induction xs arbitrary: ys)
  case Nil
  then show ?case by simp
next
  case (Cons x xs)
  from Cons.prems obtain y zs where x: "x = Some y" and zs: "those xs = Some zs" and ys: "ys = y # zs"
    by (auto split: option.splits)
  from Cons.IH [OF zs] x ys show ?case
    by (auto simp: nth_Cons split: nat.splits)
qed

lemma those_total: "(\<forall>x \<in> set xs. x \<noteq> None) \<Longrightarrow> \<exists>ys. those xs = Some ys"
  by (induction xs) auto

lemma plan_moves_nth:
  assumes "plan_moves s = Some np"
  shows "length np = length (enemies s)"
    and "\<And>i. i < length (enemies s) \<Longrightarrow> plan_one s i = Some (np ! i)"
  using those_Some [of "map (plan_one s) [0 ..< length (enemies s)]" np] assms
  by (auto simp: plan_moves_def)

lemma others_set:
  "set (others es i) = {enemy_cell (es ! j) | j. j < length es \<and> j \<noteq> i \<and> alive (es ! j)}"
  by (auto simp: others_def enemy_cell_def)

lemma not_blocked_iff:
  "\<not> blocked m t occ c \<longleftrightarrow>
     in_grid (fst c) (snd c) \<and> cell_at m (fst c) (snd c) = CHR ''.'' \<and> (c \<notin> set occ \<or> c = t)"
  by (auto simp: blocked_def list_ex_iff prod_eq_iff)

lemma plan_moves_ok:
  assumes ok: "agents_ok s" and plan: "plan_moves s = Some np"
  shows "plan_ok s np"
proof -
  have "in_grid (fst (np ! i)) (snd (np ! i)) \<and>
          (np ! i = (playerX s, playerY s) \<or> np ! i = enemy_cell (enemies s ! i) \<or>
           (\<forall>j < length (enemies s). j \<noteq> i \<and> alive (enemies s ! j) \<longrightarrow>
               np ! i \<noteq> enemy_cell (enemies s ! j)))"
    if i: "i < length (enemies s)" and al: "alive (enemies s ! i)" for i
  proof -
    let ?st = "(enemy_x (enemies s ! i), enemy_y (enemies s ! i))"
    from plan_moves_nth(2) [OF plan i] al
    have b: "bfs_next_step (mapG s) ?st (playerX s, playerY s) (others (enemies s) i) = Some (np ! i)"
      by (simp add: plan_one_def)
    from agents_okD(1) [OF ok i al] have g: "in_grid (fst ?st) (snd ?st)" by simp
    from bfs_next_step_result [OF b] show ?thesis
    proof
      assume "np ! i = ?st"
      with g show ?thesis by (simp add: enemy_cell_def)
    next
      assume "\<not> blocked (mapG s) (playerX s, playerY s) (others (enemies s) i) (np ! i)"
      then have "in_grid (fst (np ! i)) (snd (np ! i))"
        "np ! i \<notin> set (others (enemies s) i) \<or> np ! i = (playerX s, playerY s)"
        by (simp_all add: not_blocked_iff)
      then show ?thesis by (auto simp: others_set)
    qed
  qed
  with plan_moves_nth(1) [OF plan] show ?thesis
    unfolding plan_ok_def by blast
qed

lemma plan_moves_total:
  assumes ok: "agents_ok s"
  shows "\<exists>np. plan_moves s = Some np"
proof -
  have "plan_one s i \<noteq> None" if "i < length (enemies s)" for i
  proof (cases "alive (enemies s ! i)")
    case False
    then show ?thesis by (simp add: plan_one_def)
  next
    case True
    from agents_okD(1) [OF ok that True]
    have "in_grid (fst (enemy_x (enemies s ! i), enemy_y (enemies s ! i)))
            (snd (enemy_x (enemies s ! i), enemy_y (enemies s ! i)))" by simp
    from bfs_next_step_total [OF this] True show ?thesis
      by (auto simp: plan_one_def)
  qed
  then have "\<forall>x \<in> set (map (plan_one s) [0 ..< length (enemies s)]). x \<noteq> None" by auto
  from those_total [OF this] show ?thesis by (simp add: plan_moves_def)
qed

lemma rescan_agent_id:
  "\<not> (alive e \<and> enemy_cell e = (playerX s, playerY s)) \<Longrightarrow> rescan_agent e s = s"
  by (auto simp: rescan_agent_def enemy_cell_def)

lemma fold_rescan_id:
  "(\<forall>e \<in> set es. \<not> (alive e \<and> enemy_cell e = (playerX s, playerY s))) \<Longrightarrow> fold rescan_agent es s = s"
  by (induction es) (simp_all add: rescan_agent_id)

lemma rescan_id:
  assumes "agents_ok s"
  shows "rescan s = s"
proof -
  have "\<forall>e \<in> set (enemies s). \<not> (alive e \<and> enemy_cell e = (playerX s, playerY s))"
    using agents_okD(2) [OF assms] by (auto simp: in_set_conv_nth)
  from fold_rescan_id [OF this] show ?thesis by (simp add: rescan_def)
qed

lemma cap_hp_frame:
  "enemies (cap_hp s) = enemies s" "playerX (cap_hp s) = playerX s" "playerY (cap_hp s) = playerY s"
  by (simp_all add: cap_hp_def)

lemma enemy_turn_agents_ok:
  assumes ok: "agents_ok s"
  shows "\<exists>np. plan_moves s = Some np \<and> agents_ok (fst (resolve_moves s np)) \<and>
           rescan (fst (resolve_moves s np)) = fst (resolve_moves s np) \<and>
           enemy_turn s = Some (cap_hp (fst (resolve_moves s np))) \<and>
           agents_ok (cap_hp (fst (resolve_moves s np)))"
proof -
  from plan_moves_total [OF ok] obtain np where np: "plan_moves s = Some np" ..
  from plan_moves_ok [OF ok np] have pl: "plan_ok s np" .
  from resolve_prefix_agents_ok [OF ok pl, of "length (enemies s)"]
  have a: "agents_ok (fst (resolve_moves s np))" by (simp add: resolve_moves_prefix)
  from rescan_id [OF a] have r: "rescan (fst (resolve_moves s np)) = fst (resolve_moves s np)" .
  from np r have e: "enemy_turn s = Some (cap_hp (fst (resolve_moves s np)))"
    by (simp add: enemy_turn_def)
  from a agents_ok_cong [OF cap_hp_frame, of "fst (resolve_moves s np)"]
  have "agents_ok (cap_hp (fst (resolve_moves s np)))" by simp
  with np a r e show ?thesis by blast
qed

lemma attack_enemy_agents_ok:
  assumes ok: "agents_ok s" and i: "i < length (enemies s)" and al: "alive (enemies s ! i)"
    and at: "enemy_x (enemies s ! i) = nx" "enemy_y (enemies s ! i) = ny"
  shows "agents_ok (attack_enemy s nx ny i)"
proof -
  note o = agents_okD [OF ok]
  let ?e1 = "(enemies s ! i)\<lparr>hp := hp (enemies s ! i) - playerAttack s\<rparr>"
  let ?es1 = "(enemies s)[i := ?e1]"
  have c1: "enemy_cell (?es1 ! j) = enemy_cell (enemies s ! j) \<and> alive (?es1 ! j) = alive (enemies s ! j)
      \<and> enemy_x (?es1 ! j) = enemy_x (enemies s ! j) \<and> enemy_y (?es1 ! j) = enemy_y (enemies s ! j)"
    if "j < length (enemies s)" for j
    using that by (cases "j = i") (simp_all add: enemy_cell_def)
  show ?thesis
  proof (cases "hp (?es1 ! i) \<le> 0")
    case False
    then have r: "attack_enemy s nx ny i = s\<lparr>enemies := ?es1, turns := turns s + 1\<rparr>"
      by (simp add: attack_enemy_def Let_def)
    show ?thesis
      unfolding r agents_ok_def using c1 o by simp
  next
    case True
    let ?es2 = "?es1[i := (?es1 ! i)\<lparr>alive := False\<rparr>]"
    from True have r: "attack_enemy s nx ny i =
        s\<lparr>enemies := ?es2, score := score s + 10, playerX := nx, playerY := ny, turns := turns s + 1\<rparr>"
      by (simp add: attack_enemy_def Let_def)
    have c2: "alive (?es2 ! j) \<Longrightarrow> j \<noteq> i \<and> alive (enemies s ! j) \<and> ?es2 ! j = enemies s ! j"
      if "j < length (enemies s)" for j
      using that by (cases "j = i") simp_all
    have pc: "enemy_cell (enemies s ! i) = (nx, ny)" using at by (simp add: enemy_cell_def)
    have a: "in_grid (enemy_x (?es2 ! j)) (enemy_y (?es2 ! j)) \<and> enemy_cell (?es2 ! j) \<noteq> (nx, ny)"
      if j: "j < length (enemies s)" "alive (?es2 ! j)" for j
    proof -
      from c2 [OF j] have *: "j \<noteq> i" "alive (enemies s ! j)" "?es2 ! j = enemies s ! j" by simp_all
      from o(1) [OF j(1) *(2)] o(3) [OF j(1) i *(1) *(2) al] pc *(3) show ?thesis by simp
    qed
    have b: "enemy_cell (?es2 ! j) \<noteq> enemy_cell (?es2 ! k)"
      if jk: "j < length (enemies s)" "k < length (enemies s)" "j \<noteq> k" "alive (?es2 ! j)" "alive (?es2 ! k)" for j k
    proof -
      from c2 [OF jk(1) jk(4)] c2 [OF jk(2) jk(5)] o(3) [OF jk(1) jk(2) jk(3)]
      show ?thesis by simp
    qed
    show ?thesis
      unfolding r agents_ok_def using a b by simp
  qed
qed

lemma apply_player_action_agents_ok:
  assumes ok: "agents_ok s" and act: "apply_player_action s ch = Some s'"
  shows "agents_ok s'"
proof -
  from act obtain nx ny where d: "destination s ch = Some (nx, ny)" and g: "in_grid nx ny"
    by (auto simp: apply_player_action_def split: option.splits if_splits)
  show ?thesis
  proof (cases "cell_at (mapG s) nx ny = CHR ''#''")
    case True
    with act d g have "s' = s\<lparr>turns := turns s + 1\<rparr>"
      by (simp add: apply_player_action_def)
    with ok show ?thesis by (simp add: agents_ok_def)
  next
    case nowall: False
    show ?thesis
    proof (cases "enemy_index_at (enemies s) nx ny = - 1")
      case True
      with act d g nowall have s': "s' = pickup_or_move s nx ny"
        by (simp add: apply_player_action_def)
      have e: "enemies s' = enemies s" "playerX s' = nx" "playerY s' = ny"
        unfolding s' by (simp_all add: pickup_or_move_def Let_def split: prod.splits)
      from enemy_index_at_none [OF True] agents_okD [OF ok] show ?thesis
        unfolding agents_ok_def e by (auto simp: enemy_cell_def)
    next
      case False
      from enemy_index_at_some [OF False] obtain i where i: "i < length (enemies s)"
        "enemy_index_at (enemies s) nx ny = int i" "alive (enemies s ! i)"
        "enemy_x (enemies s ! i) = nx" "enemy_y (enemies s ! i) = ny" by blast
      with act d g nowall False have "s' = attack_enemy s nx ny i"
        by (simp add: apply_player_action_def)
      with attack_enemy_agents_ok [OF ok i(1,3,4,5)] show ?thesis by simp
    qed
  qed
qed

lemma initial_session_agents_ok:
  assumes "initial_session d g f = Some s"
  shows "agents_ok s"
proof -
  from assms obtain s0 where reg: "regenerate_map (declared_locals d g f) = Some s0"
    and s: "s = s0\<lparr>playerHP := playerMaxHP s0, turns := 0, highScore := load_high_score f\<rparr>"
    by (auto simp: initial_session_def split: option.splits)
  from regenerate_map_inv(3) [OF reg]
  have al: "\<forall>e \<in> set (enemies s0). alive e \<and> is_floor (mapG s0) (enemy_cell e) \<and>
              enemy_cell e \<noteq> (playerX s0, playerY s0)"
    and di: "distinct (map enemy_cell (enemies s0))"
    by (auto simp: enemy_inv_def)
  have a: "in_grid (enemy_x (enemies s0 ! i)) (enemy_y (enemies s0 ! i)) \<and>
        enemy_cell (enemies s0 ! i) \<noteq> (playerX s0, playerY s0)" if "i < length (enemies s0)" for i
    using al that nth_mem [OF that] by (auto simp: is_floor_def enemy_cell_def)
  have b: "enemy_cell (enemies s0 ! i) \<noteq> enemy_cell (enemies s0 ! j)"
    if "i < length (enemies s0)" "j < length (enemies s0)" "i \<noteq> j" for i j
  proof -
    from di that have "(map enemy_cell (enemies s0) ! i = map enemy_cell (enemies s0) ! j) = (i = j)"
      by (intro nth_eq_iff_index_eq) simp_all
    with that show ?thesis by simp
  qed
  from a b have "agents_ok s0" unfolding agents_ok_def by blast
  with agents_ok_cong [of s s0] s show ?thesis by simp
qed

lemma reachable_agents_ok: "reachable s \<Longrightarrow> agents_ok s"
proof (induction rule: reachable.induct)
  case (reach_init d g f s)
  then show ?case by (rule initial_session_agents_ok)
next
  case (reach_action s ch s')
  then show ?case by (simp add: apply_player_action_agents_ok)
next
  case (reach_enemy s s')
  from enemy_turn_agents_ok [OF reach_enemy.IH] reach_enemy.hyps(2) show ?case by auto
qed

lemma fold_resolve_keeps:
  "i < a \<Longrightarrow> enemies (fst (fold (resolve_agent np) [a ..< b] sr)) ! i = enemies (fst sr) ! i"
proof (induction b)
  case 0
  then show ?case by simp
next
  case (Suc b)
  show ?case
  proof (cases "a \<le> b")
    case False
    then show ?thesis by simp
  next
    case True
    obtain s1 R1 where p: "fold (resolve_agent np) [a ..< b] sr = (s1, R1)"
      by (cases "fold (resolve_agent np) [a ..< b] sr")
    obtain s2 R2 where r: "resolve_agent np b (s1, R1) = (s2, R2)"
      by (cases "resolve_agent np b (s1, R1)")
    from True Suc.prems have "i \<noteq> b" by simp
    from resolve_agent_frame(6) [OF r this] Suc.IH [OF Suc.prems] p r True
    show ?thesis by simp
  qed
qed

lemma atk_range: "enemyAtkMin (diffConfigs d) \<le> enemyAtkMax (diffConfigs d)"
  by (cases d) simp_all


section \<open>Claims on the player's action\<close>

text \<open>
  C5. The destination \<open>(nx, ny)\<close> of the key is inside the grid, is not a wall and holds a
  live enemy; \<open>i\<close> is that enemy (the first live one on the cell, the one
  \<^verbatim>\<open>enemy_index_at\<close> finds). The player's attack is subtracted from its hit points. If they
  drop to 0 or below, the enemy is no longer alive, the score grows by exactly 10 and the
  player stands on the cell; otherwise the enemy lives on and the player has not moved.
  Either way the turn counter grows by 1, and no other enemy, no item, not the player's
  hit points and not the generator change.
\<close>

theorem player_attack:
  assumes dest: "destination s ch = Some (nx, ny)"
    and grid: "in_grid nx ny"
    and nowall: "cell_at (mapG s) nx ny \<noteq> CHR ''#''"
    and agent: "\<exists>i < length (enemies s). alive (enemies s ! i) \<and> enemy_x (enemies s ! i) = nx \<and> enemy_y (enemies s ! i) = ny"
  shows "\<exists>s' i. apply_player_action s ch = Some s' \<and> i < length (enemies s)
      \<and> alive (enemies s ! i) \<and> enemy_x (enemies s ! i) = nx \<and> enemy_y (enemies s ! i) = ny
      \<and> (\<forall>j < i. \<not> (alive (enemies s ! j) \<and> enemy_x (enemies s ! j) = nx \<and> enemy_y (enemies s ! j) = ny))
      \<and> hp (enemies s' ! i) = hp (enemies s ! i) - playerAttack s
      \<and> enemy_x (enemies s' ! i) = nx \<and> enemy_y (enemies s' ! i) = ny
      \<and> (if hp (enemies s ! i) - playerAttack s \<le> 0
         then \<not> alive (enemies s' ! i) \<and> score s' = score s + 10 \<and> playerX s' = nx \<and> playerY s' = ny
         else alive (enemies s' ! i) \<and> score s' = score s \<and> playerX s' = playerX s \<and> playerY s' = playerY s)
      \<and> turns s' = turns s + 1
      \<and> length (enemies s') = length (enemies s)
      \<and> (\<forall>j < length (enemies s). j \<noteq> i \<longrightarrow> enemies s' ! j = enemies s ! j)
      \<and> items s' = items s \<and> playerHP s' = playerHP s \<and> rng s' = rng s \<and> mapG s' = mapG s"
proof -
  from agent have ne: "enemy_index_at (enemies s) nx ny \<noteq> - 1"
    using enemy_index_at_none by blast
  from enemy_index_at_some [OF ne] obtain i where i: "i < length (enemies s)"
    "enemy_index_at (enemies s) nx ny = int i" "alive (enemies s ! i)"
    "enemy_x (enemies s ! i) = nx" "enemy_y (enemies s ! i) = ny"
    "\<forall>j < i. \<not> (alive (enemies s ! j) \<and> enemy_x (enemies s ! j) = nx \<and> enemy_y (enemies s ! j) = ny)"
    by blast
  have act: "apply_player_action s ch = Some (attack_enemy s nx ny i)"
    using dest grid nowall ne i(2) by (simp add: apply_player_action_def)
  show ?thesis
    apply (rule exI [of _ "attack_enemy s nx ny i"])
    apply (rule exI [of _ i])
    using act i by (simp add: attack_enemy_def Let_def)
qed

theorem player_attack_witness:
  "\<exists>s'. apply_player_action demo_session CHR ''d'' = Some s' \<and> score s' = 10 \<and> turns s' = 1
     \<and> \<not> alive (enemies s' ! 0) \<and> playerX s' = 3 \<and> playerY s' = 2"
proof -
  have g: "in_grid 3 2" by (simp add: in_grid_def MAP_W_def MAP_H_def)
  have w: "cell_at (mapG demo_session) 3 2 \<noteq> CHR ''#''" by (simp add: demo_cell_32)
  have a: "\<exists>i < length (enemies demo_session). alive (enemies demo_session ! i)
      \<and> enemy_x (enemies demo_session ! i) = 3 \<and> enemy_y (enemies demo_session ! i) = 2"
    by (rule exI [of _ 0]) (simp add: demo_session_def)
  from player_attack [OF demo_dest_d g w a] obtain s' i where
    s': "apply_player_action demo_session CHR ''d'' = Some s'" "i < length (enemies demo_session)"
      "enemy_x (enemies demo_session ! i) = 3"
      "(if hp (enemies demo_session ! i) - playerAttack demo_session \<le> 0
         then \<not> alive (enemies s' ! i) \<and> score s' = score demo_session + 10 \<and> playerX s' = 3 \<and> playerY s' = 2
         else alive (enemies s' ! i) \<and> score s' = score demo_session \<and> playerX s' = playerX demo_session \<and> playerY s' = playerY demo_session)"
      "turns s' = turns demo_session + 1"
    by blast
  from s'(2,3) have "i = 0" by (auto simp: demo_session_def less_Suc_eq)
  with s' show ?thesis by (auto simp: demo_session_def)
qed


text \<open>
  C6. The destination \<open>(nx, ny)\<close> of the key is inside the grid, is not a wall, holds no live
  enemy and holds a potion. One number \<open>heal\<close> is drawn with \<^verbatim>\<open>rnd(6,10)\<close>, so
  \<open>6 \<le> heal \<le> 10\<close>; the player's hit points become \<open>min maxHP (HP + heal)\<close>; the potion
  (the first item on the cell) is erased from the list, which leaves no potion on the
  cell when the items stood on distinct cells; the player moves onto the cell and the
  turn is counted. At \<open>HP = maxHP - 3\<close> and a roll of 10 the hit points are exactly
  \<open>maxHP\<close>.
\<close>

theorem pickup_heals:
  assumes dest: "destination s ch = Some (nx, ny)"
    and grid: "in_grid nx ny"
    and nowall: "cell_at (mapG s) nx ny \<noteq> CHR ''#''"
    and noagent: "\<forall>i < length (enemies s). \<not> (alive (enemies s ! i) \<and> enemy_x (enemies s ! i) = nx \<and> enemy_y (enemies s ! i) = ny)"
    and item: "\<exists>k < length (items s). item_x (items s ! k) = nx \<and> item_y (items s ! k) = ny"
  shows "\<exists>s' k heal g1. apply_player_action s ch = Some s'
      \<and> rnd 6 10 (rng s) = (heal, g1) \<and> 6 \<le> heal \<and> heal \<le> 10 \<and> rng s' = g1
      \<and> playerHP s' = min (playerMaxHP s) (playerHP s + heal)
      \<and> k < length (items s) \<and> item_x (items s ! k) = nx \<and> item_y (items s ! k) = ny
      \<and> items s' = erase_at (items s) k \<and> length (items s') = length (items s) - 1
      \<and> (distinct (map (\<lambda>it. (item_x it, item_y it)) (items s)) \<longrightarrow>
           (\<forall>j < length (items s'). \<not> (item_x (items s' ! j) = nx \<and> item_y (items s' ! j) = ny)))
      \<and> playerX s' = nx \<and> playerY s' = ny \<and> turns s' = turns s + 1
      \<and> enemies s' = enemies s \<and> score s' = score s
      \<and> (playerHP s = playerMaxHP s - 3 \<and> heal = 10 \<longrightarrow> playerHP s' = playerMaxHP s)"
proof -
  have e: "enemy_index_at (enemies s) nx ny = - 1"
    using noagent enemy_index_at_some [of "enemies s" nx ny] by blast
  from item have ne: "item_index_at (items s) nx ny \<noteq> - 1"
    using item_index_at_none by blast
  from item_index_at_some [OF ne] obtain k where k: "k < length (items s)"
    "item_index_at (items s) nx ny = int k" "item_x (items s ! k) = nx" "item_y (items s ! k) = ny"
    "\<forall>j < k. \<not> (item_x (items s ! j) = nx \<and> item_y (items s ! j) = ny)"
    by blast
  obtain heal g1 where r: "rnd 6 10 (rng s) = (heal, g1)"
    by (cases "rnd 6 10 (rng s)") auto
  have range: "6 \<le> heal \<and> heal \<le> 10"
    using rnd_range [of 6 10 "rng s"] r by simp
  let ?s' = "pickup_or_move s nx ny"
  have act: "apply_player_action s ch = Some ?s'"
    using dest grid nowall e by (simp add: apply_player_action_def)
  have its: "items ?s' = erase_at (items s) k"
    using k r ne by (simp add: pickup_or_move_def Let_def)
  have gone: "\<forall>j < length (items ?s'). \<not> (item_x (items ?s' ! j) = nx \<and> item_y (items ?s' ! j) = ny)"
    if d: "distinct (map (\<lambda>it. (item_x it, item_y it)) (items s))"
  proof (intro allI impI)
    fix j assume j: "j < length (items ?s')"
    then have j': "j < length (items s) - 1"
      using its k(1) by (simp add: erase_at_length)
    define j2 where "j2 = (if j < k then j else Suc j)"
    have eq: "items ?s' ! j = items s ! j2"
      unfolding its j2_def using erase_at_nth [OF k(1) j'] by simp
    have "j2 < length (items s)" "j2 \<noteq> k"
      using j' by (auto simp: j2_def)
    moreover have "(map (\<lambda>it. (item_x it, item_y it)) (items s) ! j2 = map (\<lambda>it. (item_x it, item_y it)) (items s) ! k) = (j2 = k)"
      using d k(1) \<open>j2 < length (items s)\<close> by (intro nth_eq_iff_index_eq) simp_all
    ultimately have "(item_x (items s ! j2), item_y (items s ! j2)) \<noteq> (nx, ny)"
      using k by simp
    with eq show "\<not> (item_x (items ?s' ! j) = nx \<and> item_y (items ?s' ! j) = ny)"
      by auto
  qed
  have rest: "rng ?s' = g1 \<and> playerHP ?s' = min (playerMaxHP s) (playerHP s + heal)
      \<and> playerX ?s' = nx \<and> playerY ?s' = ny \<and> turns ?s' = turns s + 1
      \<and> enemies ?s' = enemies s \<and> score ?s' = score s"
    using k r ne by (simp add: pickup_or_move_def Let_def)
  have len: "length (items ?s') = length (items s) - 1"
    using its k(1) by (simp add: erase_at_length)
  have cap: "playerHP s = playerMaxHP s - 3 \<and> heal = 10 \<longrightarrow> playerHP ?s' = playerMaxHP s"
    using rest by auto
  show ?thesis
    apply (rule exI [of _ "?s'"])
    apply (rule exI [of _ k])
    apply (rule exI [of _ heal])
    apply (rule exI [of _ g1])
    using act r range rest k its len gone cap by blast
qed


theorem pickup_heals_witness:
  "\<exists>s'. apply_player_action demo_session CHR ''s'' = Some s' \<and> playerHP s' = 20 \<and> items s' = []
     \<and> playerX s' = 2 \<and> playerY s' = 3"
proof -
  have g: "in_grid 2 3" by (simp add: in_grid_def MAP_W_def MAP_H_def)
  have w: "cell_at (mapG demo_session) 2 3 \<noteq> CHR ''#''" by (simp add: demo_cell_23)
  have a: "\<forall>i < length (enemies demo_session). \<not> (alive (enemies demo_session ! i)
      \<and> enemy_x (enemies demo_session ! i) = 2 \<and> enemy_y (enemies demo_session ! i) = 3)"
    by (auto simp: demo_session_def less_Suc_eq)
  have b: "\<exists>k < length (items demo_session). item_x (items demo_session ! k) = 2 \<and> item_y (items demo_session ! k) = 3"
    by (rule exI [of _ 0]) (simp add: demo_session_def)
  have r: "rnd 6 10 (rng demo_session) = (10, \<lambda>n. 4)"
    by (simp add: rnd_def demo_session_def)
  from pickup_heals [OF demo_dest_s g w a b] obtain s' k heal g1 where
    s': "apply_player_action demo_session CHR ''s'' = Some s'" "rnd 6 10 (rng demo_session) = (heal, g1)"
      "playerHP demo_session = playerMaxHP demo_session - 3 \<and> heal = 10 \<longrightarrow> playerHP s' = playerMaxHP demo_session"
      "length (items s') = length (items demo_session) - 1" "playerX s' = 2" "playerY s' = 3"
    by blast
  from s'(2) r have "heal = 10" by simp
  with s' show ?thesis by (auto simp: demo_session_def)
qed

section \<open>Claims on generation and placement\<close>

text \<open>
  C7. Whenever \<^verbatim>\<open>regenerate_map\<close> returns, on any session it is called on and so on any
  difficulty and any stream of the generator, the player's cell, the enemies' cells and
  the potions' cells are pairwise distinct, and each of them is a floor tile inside the
  generated grid. (The room and placement loops retry without a bound, so the source gives
  no guarantee that \<^verbatim>\<open>regenerate_map\<close> returns on every stream; the witness is a stream
  on which it does.)
\<close>

theorem placement_distinct_on_floor:
  assumes "regenerate_map s = Some s'"
  shows "distinct ((playerX s', playerY s') # map enemy_cell (enemies s') @ map item_cell (items s')) \<and>
    (\<forall>c \<in> set ((playerX s', playerY s') # map enemy_cell (enemies s') @ map item_cell (items s')).
        in_grid (fst c) (snd c) \<and> cell_at (mapG s') (fst c) (snd c) = CHR ''.'')"
proof -
  note inv = regenerate_map_inv [OF assms]
  from inv(3) have e: "distinct (map enemy_cell (enemies s'))"
    "\<forall>c \<in> set (map enemy_cell (enemies s')). is_floor (mapG s') c \<and> c \<noteq> (playerX s', playerY s')"
    by (auto simp: enemy_inv_def)
  from inv(4) have i: "distinct (map item_cell (items s'))"
    "\<forall>c \<in> set (map item_cell (items s')). is_floor (mapG s') c \<and> c \<noteq> (playerX s', playerY s')
        \<and> c \<notin> set (map enemy_cell (enemies s'))"
    by (auto simp: item_inv_def)
  have d: "distinct ((playerX s', playerY s') # map enemy_cell (enemies s') @ map item_cell (items s'))"
    using e i by auto
  have f: "\<forall>c \<in> set ((playerX s', playerY s') # map enemy_cell (enemies s') @ map item_cell (items s')).
      is_floor (mapG s') c"
    using inv(2) e(2) i(2) by auto
  from f have "\<forall>c \<in> set ((playerX s', playerY s') # map enemy_cell (enemies s') @ map item_cell (items s')).
        in_grid (fst c) (snd c) \<and> cell_at (mapG s') (fst c) (snd c) = CHR ''.''"
    unfolding is_floor_def .
  with d show ?thesis by (rule conjI)
qed

theorem placement_distinct_on_floor_witness:
  "\<exists>s'. regenerate_map (declared_locals EASY demo_rng demo_file) = Some s' \<and>
     (playerX s', playerY s') = (2, 2) \<and> map enemy_cell (enemies s') = [(1, 1), (2, 1)] \<and>
     distinct ((playerX s', playerY s') # map enemy_cell (enemies s') @ map item_cell (items s')) \<and>
     cell_at (mapG s') (playerX s') (playerY s') = CHR ''.''"
proof -
  have "map_option (\<lambda>s. ((playerX s, playerY s), map enemy_cell (enemies s)))
          (regenerate_map (declared_locals EASY demo_rng demo_file)) = Some ((2, 2), [(1, 1), (2, 1)])"
    by code_simp
  then obtain s' where s': "regenerate_map (declared_locals EASY demo_rng demo_file) = Some s'"
    "(playerX s', playerY s') = (2, 2)" "map enemy_cell (enemies s') = [(1, 1), (2, 1)]"
    by auto
  from placement_distinct_on_floor [OF s'(1)] s'(2,3) have
    "distinct ((playerX s', playerY s') # map enemy_cell (enemies s') @ map item_cell (items s'))"
    "cell_at (mapG s') (playerX s') (playerY s') = CHR ''.''"
    by simp_all
  with s' show ?thesis by (intro exI [of _ s']) simp
qed


text \<open>
  C8. Every grid that \<^verbatim>\<open>generate_map_basic\<close> returns has a floor tile inside the grid,
  whatever the stream. The fallback it applies to a grid without floor makes every cell of
  the interior, the grid less its border of one cell, a floor tile.
\<close>

theorem generated_grid_has_floor:
  "(generate_map_basic g = Some (m, rs, g') \<longrightarrow> (\<exists>x y. in_grid x y \<and> cell_at m x y = CHR ''.'')) \<and>
   (wf_grid m0 \<longrightarrow>
      (\<forall>x y. 1 \<le> x \<and> x \<le> MAP_W - 2 \<and> 1 \<le> y \<and> y \<le> MAP_H - 2 \<longrightarrow>
             cell_at (carve_interior m0) x y = CHR ''.''))"
proof (intro conjI impI allI)
  assume "generate_map_basic g = Some (m, rs, g')"
  from generate_map_basic_inv(3) [OF this] obtain c where "is_floor m c" ..
  then show "\<exists>x y. in_grid x y \<and> cell_at m x y = CHR ''.''"
    by (auto simp: is_floor_def)
next
  fix x y
  assume w: "wf_grid m0" and xy: "1 \<le> x \<and> x \<le> MAP_W - 2 \<and> 1 \<le> y \<and> y \<le> MAP_H - 2"
  from xy have "in_grid x y" by (simp add: in_grid_def)
  with xy fold_carve_rows [OF w, of "[1 .. MAP_W - 2]" "[1 .. MAP_H - 2]"]
  have "is_floor (carve_interior m0) (x, y)"
    by (simp add: carve_interior_eq)
  then show "cell_at (carve_interior m0) x y = CHR ''.''"
    by (simp add: is_floor_def)
qed

theorem generated_grid_has_floor_witness:
  "\<exists>m. map_option fst (generate_map_basic demo_rng) = Some m \<and>
     (\<exists>x y. in_grid x y \<and> cell_at m x y = CHR ''.'') \<and>
     cell_at (carve_interior create_empty_map) 1 1 = CHR ''.''"
proof -
  have "map_option (\<lambda>r. hd (fst r)) (generate_map_basic demo_rng) = Some ''####################''"
    by code_simp
  then obtain m rs g' where g: "generate_map_basic demo_rng = Some (m, rs, g')"
    by auto
  have i: "(1::int) \<le> 1 \<and> 1 \<le> MAP_W - 2 \<and> (1::int) \<le> 1 \<and> 1 \<le> MAP_H - 2"
    by (simp add: MAP_W_def MAP_H_def)
  from generated_grid_has_floor [of demo_rng m rs g' create_empty_map] g i wf_create_empty_map
  have "\<exists>x y. in_grid x y \<and> cell_at m x y = CHR ''.''"
    "cell_at (carve_interior create_empty_map) 1 1 = CHR ''.''"
    by blast+
  with g show ?thesis by simp
qed


section \<open>Claims on the pathfinder\<close>

text \<open>
  C2. For every grid, start, target and list of occupied cells, \<^verbatim>\<open>bfs_next_step\<close> with
  the start equal to the target returns the start. When the start is a cell of the grid
  other than the target and a path leads from it to the target (steps to one of the four
  neighbours, onto floor tiles inside the grid that are not occupied, the target itself
  being allowed even when occupied), it returns a cell \<open>c\<close> such that some path
  \<open>start, c, ...\<close> to the target is no longer than any path from the start to the
  target. On a grid that is all floor, with no occupied cell and start and target two
  different cells of the grid, the cell returned is strictly closer to the target in
  Manhattan distance than the start.
\<close>

theorem bfs_next_step_shortest:
  "bfs_next_step m s s occ = Some s \<and>
   (s \<noteq> t \<and> in_grid (fst s) (snd s) \<and> path_from_to m occ s t p0 \<longrightarrow>
      (\<exists>c rest. bfs_next_step m s t occ = Some c \<and> path_from_to m occ s t (s # c # rest) \<and>
         (\<forall>p'. path_from_to m occ s t p' \<longrightarrow> length (s # c # rest) \<le> length p'))) \<and>
   (s \<noteq> t \<and> open_grid m \<and> in_grid (fst s) (snd s) \<and> in_grid (fst t) (snd t) \<longrightarrow>
      (\<exists>c. bfs_next_step m s t [] = Some c \<and> manhattan c t < manhattan s t))"
proof (intro conjI impI)
  show "bfs_next_step m s s occ = Some s" by (rule bfs_next_step_same)
next
  assume a: "s \<noteq> t \<and> in_grid (fst s) (snd s) \<and> path_from_to m occ s t p0"
  then have "s \<noteq> t" "in_grid (fst s) (snd s)" "path_from_to m occ s t p0" by simp_all
  then show "\<exists>c rest. bfs_next_step m s t occ = Some c \<and> path_from_to m occ s t (s # c # rest) \<and>
         (\<forall>p'. path_from_to m occ s t p' \<longrightarrow> length (s # c # rest) \<le> length p')"
    by (rule bfs_next_step_path)
next
  assume a: "s \<noteq> t \<and> open_grid m \<and> in_grid (fst s) (snd s) \<and> in_grid (fst t) (snd t)"
  then have "open_grid m" "in_grid (fst s) (snd s)" "in_grid (fst t) (snd t)" "s \<noteq> t" by simp_all
  then show "\<exists>c. bfs_next_step m s t [] = Some c \<and> manhattan c t < manhattan s t"
    by (rule bfs_next_step_open)
qed

theorem bfs_next_step_shortest_witness:
  "bfs_next_step demo_map (6, 2) (2, 2) [] = Some (5, 2) \<and>
   (\<exists>rest. path_from_to demo_map [] (6, 2) (2, 2) ((6, 2) # (5, 2) # rest) \<and> length rest \<le> 3) \<and>
   (\<exists>c. bfs_next_step demo_open_map (6, 2) (2, 2) [] = Some c \<and> manhattan c (2, 2) < 4)"
proof -
  have ne: "((6, 2) :: cell) \<noteq> (2, 2)" by simp
  have g: "in_grid (fst ((6, 2) :: cell)) (snd ((6, 2) :: cell))"
    "in_grid (fst ((2, 2) :: cell)) (snd ((2, 2) :: cell))"
    by (simp_all add: in_grid_def MAP_W_def MAP_H_def)
  have p0: "path_from_to demo_map [] (6, 2) (2, 2) [(6, 2), (5, 2), (4, 2), (3, 2), (2, 2)]"
    by code_simp
  have ev: "bfs_next_step demo_map (6, 2) (2, 2) [] = Some (5, 2)"
    by code_simp
  have og: "open_grid demo_open_map"
    by code_simp
  have mh: "manhattan (6, 2) (2, 2) = 4" by (simp add: manhattan_def)
  from bfs_next_step_shortest [of demo_map "(6, 2)" "[]" "(2, 2)" "[(6, 2), (5, 2), (4, 2), (3, 2), (2, 2)]"]
    ne g p0
  obtain c rest where c: "bfs_next_step demo_map (6, 2) (2, 2) [] = Some c"
    "path_from_to demo_map [] (6, 2) (2, 2) ((6, 2) # c # rest)"
    "\<forall>p'. path_from_to demo_map [] (6, 2) (2, 2) p' \<longrightarrow> length ((6, 2) # c # rest) \<le> length p'"
    by blast
  from c(1) ev have "c = (5, 2)" by simp
  moreover from c(3) p0 have "length rest \<le> 3" by fastforce
  ultimately have first: "\<exists>rest. path_from_to demo_map [] (6, 2) (2, 2) ((6, 2) # (5, 2) # rest) \<and> length rest \<le> 3"
    using c(2) by blast
  from bfs_next_step_shortest [of demo_open_map "(6, 2)" "[]" "(2, 2)" "[]"] ne g og mh
  have "\<exists>c. bfs_next_step demo_open_map (6, 2) (2, 2) [] = Some c \<and> manhattan c (2, 2) < 4"
    by simp
  with ev first show ?thesis by blast
qed


text \<open>
  C3. The start is a cell of the grid other than the target. The search finds the target
  exactly when a path leads to it. When there is none, \<^verbatim>\<open>bfs_next_step\<close> returns the
  greedy step as the specification words it (\<open>greedy_spec\<close>: along the axis of larger
  distance first, the horizontal one on a tie, then along the other, only onto a cell that
  is not blocked, else the start). A start none of whose four neighbours is a floor tile
  of the grid is returned unchanged. And for every start inside the grid the function
  returns a cell: the search and the walk back along \<^verbatim>\<open>parent\<close> both end.
\<close>

theorem bfs_next_step_fallback:
  assumes "in_grid (fst s) (snd s)"
  shows "(s \<noteq> t \<longrightarrow>
           fst (bfs_loop m t occ ([s], (\<lambda>c. False)(s := True), (\<lambda>c. (0, 0)))) = (\<exists>p. path_from_to m occ s t p)) \<and>
         (s \<noteq> t \<and> (\<forall>p. \<not> path_from_to m occ s t p) \<longrightarrow>
           bfs_next_step m s t occ = Some (greedy_step m s t occ) \<and>
           greedy_step m s t occ = greedy_spec m s t occ) \<and>
         (list_all (\<lambda>d. \<not> (in_grid (fst s + fst d) (snd s + snd d) \<and>
                            cell_at m (fst s + fst d) (snd s + snd d) = CHR ''.'')) dirs \<longrightarrow>
           bfs_next_step m s t occ = Some s) \<and>
         (\<exists>c. bfs_next_step m s t occ = Some c)"
proof (intro conjI impI)
  assume ne: "s \<noteq> t"
  show "fst (bfs_loop m t occ ([s], (\<lambda>c. False)(s := True), (\<lambda>c. (0, 0)))) = (\<exists>p. path_from_to m occ s t p)"
    using search_found [of m t occ s "\<lambda>c. (0, 0)", OF _ ne] search_not_found [of m t occ s "\<lambda>c. (0, 0)"]
    by blast
next
  assume a: "s \<noteq> t \<and> (\<forall>p. \<not> path_from_to m occ s t p)"
  with bfs_next_step_nopath [OF _ assms, of t m occ]
  show "bfs_next_step m s t occ = Some (greedy_step m s t occ)" by blast
next
  show "greedy_step m s t occ = greedy_spec m s t occ" by (rule greedy_step_spec)
next
  assume w: "list_all (\<lambda>d. \<not> (in_grid (fst s + fst d) (snd s + snd d) \<and>
                            cell_at m (fst s + fst d) (snd s + snd d) = CHR ''.'')) dirs"
  show "bfs_next_step m s t occ = Some s"
  proof (cases "s = t")
    case True
    then show ?thesis by (simp add: bfs_next_step_same)
  next
    case False
    from no_path_walled_in [OF w False] have "\<forall>p. \<not> path_from_to m occ s t p" by blast
    from bfs_next_step_nopath [OF False assms this] greedy_spec_walled_in [OF w]
    show ?thesis by (simp add: greedy_step_spec)
  qed
next
  show "\<exists>c. bfs_next_step m s t occ = Some c" by (rule bfs_next_step_total [OF assms])
qed

theorem bfs_next_step_fallback_witness:
  "bfs_next_step demo_map (1, 1) (15, 7) [] = Some (2, 1) \<and>
   greedy_spec demo_map (1, 1) (15, 7) [] = (2, 1) \<and>
   \<not> fst (bfs_loop demo_map (15, 7) [] ([(1, 1)], (\<lambda>c. False)((1, 1) := True), (\<lambda>c. (0, 0)))) \<and>
   bfs_next_step demo_map (12, 6) (2, 2) [] = Some (12, 6)"
proof -
  have g: "in_grid (fst ((1, 1) :: cell)) (snd ((1, 1) :: cell))"
    "in_grid (fst ((12, 6) :: cell)) (snd ((12, 6) :: cell))"
    by (simp_all add: in_grid_def MAP_W_def MAP_H_def)
  have ne: "((1, 1) :: cell) \<noteq> (15, 7)" by simp
  have "blocked demo_map (15, 7) [] (15, 7)" by code_simp
  from no_path_blocked_target [OF this ne] have no: "\<forall>p. \<not> path_from_to demo_map [] (1, 1) (15, 7) p"
    by blast
  have gs: "greedy_spec demo_map (1, 1) (15, 7) [] = (2, 1)" by code_simp
  have walled: "list_all (\<lambda>d. \<not> (in_grid (fst ((12, 6) :: cell) + fst d) (snd ((12, 6) :: cell) + snd d) \<and>
       cell_at demo_map (fst ((12, 6) :: cell) + fst d) (snd ((12, 6) :: cell) + snd d) = CHR ''.'')) dirs"
    by code_simp
  from bfs_next_step_fallback [OF g(1), of "(15, 7)" demo_map "[]"] ne no gs
  have a: "bfs_next_step demo_map (1, 1) (15, 7) [] = Some (2, 1)"
    "\<not> fst (bfs_loop demo_map (15, 7) [] ([(1, 1)], (\<lambda>c. False)((1, 1) := True), (\<lambda>c. (0, 0))))"
    by auto
  from bfs_next_step_fallback [OF g(2), of "(2, 2)" demo_map "[]"] walled
  have "bfs_next_step demo_map (12, 6) (2, 2) [] = Some (12, 6)" by blast
  with a gs show ?thesis by simp
qed


section \<open>Claims on the turn resolver\<close>

text \<open>
  C1. The resolution loop takes the enemies in array order: the turn's result is the loop
  run on the enemies after \<open>k\<close>, from the state that enemy \<open>k\<close> leaves, and the cell of
  enemy \<open>k\<close> is not touched again. When the live enemy \<open>k\<close> is reached, the set
  \<^verbatim>\<open>reserved\<close> holds exactly the cells on which the live enemies before \<open>k\<close> now
  stand. Its intended cell \<open>nextPos[k]\<close> is a cell of the grid (as every cell planned for
  a live enemy is). If that is the player's cell, one damage roll drawn with \<^verbatim>\<open>rnd\<close> from the
  tier's attack range is taken from the player's hit points, and the enemy stays on its
  cell, which is reserved. Otherwise the enemy moves onto the intended cell if and only if
  that cell is a floor tile and is not reserved; the cell is then reserved. If it does not
  move it stays on its cell, which is reserved.
\<close>

theorem resolve_in_array_order:
  assumes k: "k < length (enemies s)" and al: "alive (enemies s ! k)"
    and g: "in_grid (fst (nextPos ! k)) (snd (nextPos ! k))"
  shows "(let sk = fst (resolve_prefix s nextPos k); R = snd (resolve_prefix s nextPos k);
              s1 = fst (resolve_agent nextPos k (sk, R)); R1 = snd (resolve_agent nextPos k (sk, R));
              e = enemies s ! k; intended = nextPos ! k;
              lo = enemyAtkMin (diffConfigs (diff s)); hi = enemyAtkMax (diffConfigs (diff s))
          in fold (resolve_agent nextPos) [Suc k ..< length (enemies s)] (s1, R1) =
               resolve_moves s nextPos \<and>
             enemies (fst (resolve_moves s nextPos)) ! k = enemies s1 ! k \<and>
             R = {c. \<exists>j < k. alive (enemies sk ! j) \<and> c = enemy_cell (enemies sk ! j)} \<and>
             enemies sk ! k = e \<and> length (enemies sk) = length (enemies s) \<and>
             playerX sk = playerX s \<and> playerY sk = playerY s \<and>
             (if intended = (playerX s, playerY s) then
                (\<exists>edmg g1. rnd lo hi (rng sk) = (edmg, g1) \<and> lo \<le> edmg \<and> edmg \<le> hi \<and>
                    playerHP s1 = playerHP sk - edmg \<and> rng s1 = g1) \<and>
                enemies s1 = enemies sk \<and> R1 = insert (enemy_cell e) R
              else if cell_at (mapG s) (fst intended) (snd intended) = CHR ''.'' \<and> intended \<notin> R then
                enemies s1 = (enemies sk)[k := e\<lparr>enemy_x := fst intended, enemy_y := snd intended\<rparr>] \<and>
                R1 = insert intended R \<and> playerHP s1 = playerHP sk \<and> rng s1 = rng sk
              else
                enemies s1 = enemies sk \<and> R1 = insert (enemy_cell e) R \<and>
                playerHP s1 = playerHP sk \<and> rng s1 = rng sk))"
proof -
  define sk where "sk = fst (resolve_prefix s nextPos k)"
  define R where "R = snd (resolve_prefix s nextPos k)"
  define s1 where "s1 = fst (resolve_agent nextPos k (sk, R))"
  define R1 where "R1 = snd (resolve_agent nextPos k (sk, R))"
  have pre: "resolve_prefix s nextPos k = (sk, R)" by (simp add: sk_def R_def)
  have step: "resolve_agent nextPos k (sk, R) = (s1, R1)" by (simp add: s1_def R1_def)
  from resolve_frame_prefix [of k s nextPos] k pre have fr: "resolve_frame s k (sk, R)" by simp
  then have f1: "mapG sk = mapG s" "playerX sk = playerX s" "playerY sk = playerY s" "diff sk = diff s"
    "length (enemies sk) = length (enemies s)"
    and f3: "enemies sk ! k = enemies s ! k"
    and f4: "R = {c. \<exists>j < k. j < length (enemies s) \<and> alive (enemies sk ! j) \<and> c = enemy_cell (enemies sk ! j)}"
    using k by (auto simp: resolve_frame_def)
  from f4 k have a: "R = {c. \<exists>j < k. alive (enemies sk ! j) \<and> c = enemy_cell (enemies sk ! j)}"
    by auto
  have b: "resolve_moves s nextPos = fold (resolve_agent nextPos) [Suc k ..< length (enemies s)] (s1, R1)"
    using resolve_moves_split [OF k, of nextPos] pre step by simp
  have c: "enemies (fst (resolve_moves s nextPos)) ! k = enemies s1 ! k"
    unfolding b using fold_resolve_keeps [of k "Suc k" nextPos "length (enemies s)" "(s1, R1)"] by simp
  obtain edmg g1 where r: "rnd (enemyAtkMin (diffConfigs (diff s))) (enemyAtkMax (diffConfigs (diff s))) (rng sk) = (edmg, g1)"
    by (cases "rnd (enemyAtkMin (diffConfigs (diff s))) (enemyAtkMax (diffConfigs (diff s))) (rng sk)")
  from rnd_eq_range [OF r atk_range]
  have rr: "enemyAtkMin (diffConfigs (diff s)) \<le> edmg" "edmg \<le> enemyAtkMax (diffConfigs (diff s))"
    by simp_all
  from g have nonneg: "0 \<le> fst (nextPos ! k)" by (simp add: in_grid_def)
  have s1R1: "(s1, R1) = resolve_agent nextPos k (sk, R)" using step by simp
  have d: "(if nextPos ! k = (playerX s, playerY s) then
                (\<exists>edmg g1. rnd (enemyAtkMin (diffConfigs (diff s))) (enemyAtkMax (diffConfigs (diff s))) (rng sk) = (edmg, g1) \<and>
                    enemyAtkMin (diffConfigs (diff s)) \<le> edmg \<and> edmg \<le> enemyAtkMax (diffConfigs (diff s)) \<and>
                    playerHP s1 = playerHP sk - edmg \<and> rng s1 = g1) \<and>
                enemies s1 = enemies sk \<and> R1 = insert (enemy_cell (enemies s ! k)) R
              else if cell_at (mapG s) (fst (nextPos ! k)) (snd (nextPos ! k)) = CHR ''.'' \<and> nextPos ! k \<notin> R then
                enemies s1 = (enemies sk)[k := (enemies s ! k)\<lparr>enemy_x := fst (nextPos ! k), enemy_y := snd (nextPos ! k)\<rparr>] \<and>
                R1 = insert (nextPos ! k) R \<and> playerHP s1 = playerHP sk \<and> rng s1 = rng sk
              else
                enemies s1 = enemies sk \<and> R1 = insert (enemy_cell (enemies s ! k)) R \<and>
                playerHP s1 = playerHP sk \<and> rng s1 = rng sk)"
  proof (cases "nextPos ! k = (playerX s, playerY s)")
    case True
    with s1R1 al f1 f3 r have "s1 = sk\<lparr>playerHP := playerHP sk - edmg, rng := g1\<rparr>"
      "R1 = insert (enemy_cell (enemies s ! k)) R"
      unfolding resolve_agent_cases by simp_all
    with True r rr show ?thesis by simp
  next
    case np: False
    show ?thesis
    proof (cases "cell_at (mapG s) (fst (nextPos ! k)) (snd (nextPos ! k)) = CHR ''.'' \<and> nextPos ! k \<notin> R")
      case True
      with s1R1 al f1 f3 np nonneg
      have "s1 = sk\<lparr>enemies := (enemies sk)[k := (enemies s ! k)\<lparr>enemy_x := fst (nextPos ! k), enemy_y := snd (nextPos ! k)\<rparr>]\<rparr>"
        "R1 = insert (nextPos ! k) R"
        unfolding resolve_agent_cases by simp_all
      with True np show ?thesis by simp
    next
      case False
      with s1R1 al f1 f3 np have "s1 = sk" "R1 = insert (enemy_cell (enemies s ! k)) R"
        unfolding resolve_agent_cases by auto
      with False np show ?thesis by auto
    qed
  qed
  show ?thesis
    unfolding Let_def sk_def [symmetric] R_def [symmetric] s1_def [symmetric] R1_def [symmetric]
    using a b [symmetric] c d f1(2,3,5) f3 by (intro conjI)
qed

theorem resolve_in_array_order_witness:
  "plan_moves demo_session = Some [(2, 2), (5, 2)] \<and>
   enemy_cell (enemies (fst (resolve_moves demo_session [(2, 2), (5, 2)])) ! Suc 0) = (5, 2)"
proof -
  let ?np = "[(2, 2), (5, 2)] :: cell list"
  let ?sk = "fst (resolve_prefix demo_session ?np (Suc 0))"
  let ?R = "snd (resolve_prefix demo_session ?np (Suc 0))"
  let ?s1 = "fst (resolve_agent ?np (Suc 0) (?sk, ?R))"
  have k: "Suc 0 < length (enemies demo_session)" by (simp add: demo_session_def)
  have al: "alive (enemies demo_session ! Suc 0)" by (simp add: demo_session_def)
  have g: "in_grid (fst (?np ! Suc 0)) (snd (?np ! Suc 0))"
    by (simp add: in_grid_def MAP_W_def MAP_H_def)
  have cond: "?np ! Suc 0 \<noteq> (playerX demo_session, playerY demo_session)"
    "cell_at (mapG demo_session) (fst (?np ! Suc 0)) (snd (?np ! Suc 0)) = CHR ''.''"
    by (simp_all add: demo_session_def demo_map_def cell_at_def)
  have nr: "?np ! Suc 0 \<notin> ?R"
    by code_simp
  note t = resolve_in_array_order [OF k al g, unfolded Let_def]
  note fin = t [THEN conjunct2, THEN conjunct1]
  note len = t [THEN conjunct2, THEN conjunct2, THEN conjunct2, THEN conjunct2, THEN conjunct1]
  note br = t [THEN conjunct2, THEN conjunct2, THEN conjunct2, THEN conjunct2, THEN conjunct2,
               THEN conjunct2, THEN conjunct2]
  from br cond nr have mv: "enemies ?s1 =
      (enemies ?sk)[Suc 0 := (enemies demo_session ! Suc 0)\<lparr>enemy_x := fst (?np ! Suc 0), enemy_y := snd (?np ! Suc 0)\<rparr>]"
    by (simp only: if_False if_True simp_thms)
  from len k have "Suc 0 < length (enemies ?sk)" by simp
  then have "enemies ?s1 ! Suc 0 =
      (enemies demo_session ! Suc 0)\<lparr>enemy_x := fst (?np ! Suc 0), enemy_y := snd (?np ! Suc 0)\<rparr>"
    unfolding mv by (rule nth_list_update_eq)
  with fin have "enemy_cell (enemies (fst (resolve_moves demo_session ?np)) ! Suc 0) = (5, 2)"
    by (simp add: enemy_cell_def)
  moreover have "plan_moves demo_session = Some ?np"
    by code_simp
  ultimately show ?thesis by simp
qed


text \<open>
  C9. In every state reached from an initial session by player actions and enemy turns,
  in any order and number, two different live enemies never stand on the same cell.
\<close>

theorem live_agents_on_distinct_cells:
  assumes "reachable s"
  shows "\<forall>i < length (enemies s). \<forall>j < length (enemies s).
           i \<noteq> j \<and> alive (enemies s ! i) \<and> alive (enemies s ! j) \<longrightarrow>
           (enemy_x (enemies s ! i), enemy_y (enemies s ! i)) \<noteq>
           (enemy_x (enemies s ! j), enemy_y (enemies s ! j))"
  using agents_okD(3) [OF reachable_agents_ok [OF assms]]
  unfolding enemy_cell_def by blast

theorem live_agents_on_distinct_cells_witness:
  "\<exists>s. reachable s \<and> map alive (enemies s) = [True, True] \<and> turns s = 1 \<and>
       (enemy_x (enemies s ! 0), enemy_y (enemies s ! 0)) \<noteq>
       (enemy_x (enemies s ! 1), enemy_y (enemies s ! 1))"
proof -
  have "map_option (\<lambda>s. (map alive (enemies s), turns s))
          (Option.bind (initial_session EASY demo_rng demo_file)
             (\<lambda>s0. Option.bind (apply_player_action s0 CHR ''d'') enemy_turn)) =
        Some ([True, True], 1)"
    by code_simp
  then obtain s0 s1 s where run: "initial_session EASY demo_rng demo_file = Some s0"
    "apply_player_action s0 CHR ''d'' = Some s1" "enemy_turn s1 = Some s"
    and s: "map alive (enemies s) = [True, True]" "turns s = 1"
    by (auto simp: bind_eq_Some_conv)
  from run have r: "reachable s"
    by (blast intro: reachable.intros)
  from s(1) have len: "length (enemies s) = 2"
    by (metis length_map length_Cons list.size(3) numeral_2_eq_2)
  from s(1) len have al: "alive (enemies s ! 0)" "alive (enemies s ! 1)"
    by (metis nth_map nth_Cons_0 zero_less_numeral,
        metis nth_map nth_Cons_0 nth_Cons_Suc One_nat_def one_less_numeral_iff semiring_norm(76))
  from live_agents_on_distinct_cells [OF r] len al
  have "(enemy_x (enemies s ! 0), enemy_y (enemies s ! 0)) \<noteq>
        (enemy_x (enemies s ! 1), enemy_y (enemies s ! 1))"
    by simp
  with r s show ?thesis by (intro exI [of _ s]) simp
qed


text \<open>
  C10. In every reachable state the plan of the enemy turn exists, and when the resolution
  loop has run no live enemy stands on the player's cell: an enemy whose intended cell is
  the player's is left as it was, on its own cell. So the scan after the resolution
  changes nothing (no second damage roll is drawn), and the enemy turn ends in the
  resolved session with the hit points capped.
\<close>

theorem no_agent_on_player_after_resolution:
  assumes "reachable s"
  shows "\<exists>np. plan_moves s = Some np \<and>
     (\<forall>i < length (enemies (fst (resolve_moves s np))).
         alive (enemies (fst (resolve_moves s np)) ! i) \<longrightarrow>
         (enemy_x (enemies (fst (resolve_moves s np)) ! i), enemy_y (enemies (fst (resolve_moves s np)) ! i)) \<noteq>
         (playerX (fst (resolve_moves s np)), playerY (fst (resolve_moves s np)))) \<and>
     (\<forall>i < length (enemies s).
         alive (enemies s ! i) \<and> np ! i = (playerX s, playerY s) \<longrightarrow>
         enemies (fst (resolve_moves s np)) ! i = enemies s ! i) \<and>
     rescan (fst (resolve_moves s np)) = fst (resolve_moves s np) \<and>
     enemy_turn s = Some (cap_hp (fst (resolve_moves s np)))"
proof -
  from enemy_turn_agents_ok [OF reachable_agents_ok [OF assms]] obtain np where
    np: "plan_moves s = Some np" and ok: "agents_ok (fst (resolve_moves s np))"
    and re: "rescan (fst (resolve_moves s np)) = fst (resolve_moves s np)"
    and et: "enemy_turn s = Some (cap_hp (fst (resolve_moves s np)))"
    by blast
  have a: "\<forall>i < length (enemies (fst (resolve_moves s np))).
         alive (enemies (fst (resolve_moves s np)) ! i) \<longrightarrow>
         (enemy_x (enemies (fst (resolve_moves s np)) ! i), enemy_y (enemies (fst (resolve_moves s np)) ! i)) \<noteq>
         (playerX (fst (resolve_moves s np)), playerY (fst (resolve_moves s np)))"
    using agents_okD(2) [OF ok] unfolding enemy_cell_def by blast
  have b: "enemies (fst (resolve_moves s np)) ! i = enemies s ! i"
    if i: "i < length (enemies s)" and al: "alive (enemies s ! i)"
      and pl: "np ! i = (playerX s, playerY s)" for i
  proof -
    obtain sk R where pre: "resolve_prefix s np i = (sk, R)" by (cases "resolve_prefix s np i")
    from resolve_frame_prefix [of i s np] i pre have "resolve_frame s i (sk, R)" by simp
    then have f: "playerX sk = playerX s" "playerY sk = playerY s" "enemies sk ! i = enemies s ! i"
      using i by (auto simp: resolve_frame_def)
    from al pl f have "enemies (fst (resolve_agent np i (sk, R))) = enemies sk"
      unfolding resolve_agent_cases by simp
    moreover have "enemies (fst (resolve_moves s np)) ! i = enemies (fst (resolve_agent np i (sk, R))) ! i"
      unfolding resolve_moves_split [OF i, of np] pre
      by (rule fold_resolve_keeps) simp
    ultimately show ?thesis using f(3) by simp
  qed
  from np a b re et show ?thesis by blast
qed

theorem no_agent_on_player_after_resolution_witness:
  "\<exists>s. reachable s \<and> plan_moves s = Some [(1, 2), (2, 2)] \<and> (playerX s, playerY s) = (1, 2) \<and>
       enemies (fst (resolve_moves s [(1, 2), (2, 2)])) ! 0 = enemies s ! 0 \<and>
       rescan (fst (resolve_moves s [(1, 2), (2, 2)])) = fst (resolve_moves s [(1, 2), (2, 2)])"
proof -
  have "map_option (\<lambda>s. (plan_moves s, map alive (enemies s), (playerX s, playerY s)))
          (Option.bind (initial_session EASY demo_rng demo_file)
             (\<lambda>s0. apply_player_action s0 CHR ''a'')) =
        Some (Some [(1, 2), (2, 2)], [True, True], (1, 2))"
    by code_simp
  then obtain s0 s where run: "initial_session EASY demo_rng demo_file = Some s0"
    "apply_player_action s0 CHR ''a'' = Some s"
    and s: "plan_moves s = Some [(1, 2), (2, 2)]" "map alive (enemies s) = [True, True]"
      "(playerX s, playerY s) = (1, 2)"
    by (auto simp: bind_eq_Some_conv)
  from run have r: "reachable s"
    by (blast intro: reachable.intros)
  from s(2) have len: "length (enemies s) = 2"
    by (metis length_map length_Cons list.size(3) numeral_2_eq_2)
  from s(2) len have al: "alive (enemies s ! 0)"
    by (metis nth_map nth_Cons_0 zero_less_numeral)
  from no_agent_on_player_after_resolution [OF r] s(1) have
    keep: "\<forall>i < length (enemies s).
         alive (enemies s ! i) \<and> [(1, 2), (2, 2)] ! i = (playerX s, playerY s) \<longrightarrow>
         enemies (fst (resolve_moves s [(1, 2), (2, 2)])) ! i = enemies s ! i"
    and re: "rescan (fst (resolve_moves s [(1, 2), (2, 2)])) = fst (resolve_moves s [(1, 2), (2, 2)])"
    by auto
  from keep len al s(3) have "enemies (fst (resolve_moves s [(1, 2), (2, 2)])) ! 0 = enemies s ! 0"
    by simp
  with r s re show ?thesis by (intro exI [of _ s]) simp
qed


section \<open>The end of a run\<close>

lemma main_loop_eof: "0 < playerHP s \<Longrightarrow> main_loop s [] = Some s"
  by simp

lemma main_loop_quit:
  "0 < playerHP s \<Longrightarrow> highScore s < score s \<Longrightarrow> writable (hsFile s) \<Longrightarrow>
   main_loop s (CHR ''q'' # inp) = Some (s\<lparr>hsFile := (hsFile s)\<lparr>content := Some (score s)\<rparr>\<rparr>)"
  by (simp add: flush_high_score_def save_high_score_def)

text \<open>
  C4. A run of the whole program: no file \<^verbatim>\<open>highscore.txt\<close>, the easy tier chosen, the
  stream \<open>demo_rng\<close>, and one move up, onto an enemy with 3 hit points, which dies; the
  score is 10 and the stored best is 0. When the input ends there, the program exits and
  the file still does not exist: the loop is left by the \<^verbatim>\<open>break\<close> of the failed read,
  which does not pass through the comparison with the high score. The same run ended with
  \<^verbatim>\<open>q\<close> stores 10. The claim, that the new best is saved on a failed read as on a quit,
  fails on the code.
\<close>

theorem eof_leaves_high_score_unsaved:
  "main_program (Some 1) ''w'' demo_rng demo_file = Some \<lparr>content = None, writable = True\<rparr> \<and>
   main_program (Some 1) ''wq'' demo_rng demo_file = Some \<lparr>content = Some 10, writable = True\<rparr> \<and>
   map_option (\<lambda>s. (score s, highScore s, playerHP s))
     (Option.bind (initial_session (choose_difficulty 1) demo_rng demo_file) (\<lambda>s. main_loop s ''w'')) =
   Some (10, 0, 19)"
  by code_simp


end
